theory Spec2Isabelle
  imports Complex_Main "HOL-Library.Signed_Division" "HOL-Library.AList"
begin

section \<open>Errors\<close>

text \<open>
  Both programs of \<^verbatim>\<open>index.js\<close> raise plain \<^verbatim>\<open>Error\<close> objects that differ in their
  message only; each message is one constructor. The last three constructors are the
  exceptions of the language itself: BigInt division by \<^verbatim>\<open>0n\<close>, reading a property
  of \<^verbatim>\<open>undefined\<close>, and \<^verbatim>\<open>BigInt\<close> applied to a Number that is not an integer.
\<close>

datatype error =
    Denominator_cannot_be_0
  | Denominator_zero
  | Divide_by_zero
  | Not_enough_shares_in_input
  | Could_not_determine_consensus_secret
  | RangeError_division_by_zero
  | TypeError_undefined
  | RangeError_not_an_integer

text \<open>The error kinds of the specification, as classes of the messages above.\<close>

definition DivisionByZeroError :: "error \<Rightarrow> bool" where
  "DivisionByZeroError e \<longleftrightarrow>
     e = Denominator_zero \<or> e = Divide_by_zero \<or> e = Denominator_cannot_be_0"

definition InsufficientSharesError :: "error \<Rightarrow> bool" where
  "InsufficientSharesError e \<longleftrightarrow> e = Not_enough_shares_in_input"

definition NoConsensusError :: "error \<Rightarrow> bool" where
  "NoConsensusError e \<longleftrightarrow> e = Could_not_determine_consensus_secret"

fun ebind :: "error + 'a \<Rightarrow> ('a \<Rightarrow> error + 'b) \<Rightarrow> error + 'b" where
  "ebind (Inl e) f = Inl e"
| "ebind (Inr v) f = f v"

section \<open>BigInt arithmetic\<close>

text \<open>
  A BigInt is an unbounded integer. Its \<^verbatim>\<open>/\<close> truncates towards zero and its \<^verbatim>\<open>%\<close>
  takes the sign of the dividend (\<open>sdiv\<close> and \<open>smod\<close>); both raise a RangeError
  on a zero divisor.
\<close>

definition bigint_div :: "int \<Rightarrow> int \<Rightarrow> error + int" where
  "bigint_div a b = (if b = 0 then Inl RangeError_division_by_zero else Inr (a sdiv b))"

definition bigint_rem :: "int \<Rightarrow> int \<Rightarrow> error + int" where
  "bigint_rem a b = (if b = 0 then Inl RangeError_division_by_zero else Inr (a smod b))"

text \<open>
  The \<^verbatim>\<open>while (b !== 0n)\<close> loop shared by \<^verbatim>\<open>bigGcd\<close> and \<^verbatim>\<open>gcdBigInt\<close>; the
  remainder is taken under the loop's guard, where the divisor is not zero.
\<close>

function gcd_loop :: "int \<Rightarrow> int \<Rightarrow> int" where
  "gcd_loop a b = (if b \<noteq> 0 then gcd_loop b (a smod b) else a)"
  by pat_completeness auto
termination
proof (relation "measure (\<lambda>(a, b). nat \<bar>b\<bar>)")
  show "wf (measure (\<lambda>(a, b). nat \<bar>b\<bar>))" by simp
next
  fix a b :: int
  assume "b \<noteq> 0"
  then have "\<bar>a\<bar> mod \<bar>b\<bar> < \<bar>b\<bar>" by simp
  moreover from \<open>b \<noteq> 0\<close> have "0 \<le> \<bar>a\<bar> mod \<bar>b\<bar>" by simp
  then have "\<bar>a smod b\<bar> = \<bar>a\<bar> mod \<bar>b\<bar>"
    by (cases "a = 0") (simp_all add: signed_modulo_int_def abs_mult)
  ultimately show "((b, a smod b), (a, b)) \<in> measure (\<lambda>(a, b). nat \<bar>b\<bar>)"
    by simp
qed

declare gcd_loop.simps [simp del]

definition bigGcd :: "int \<Rightarrow> int \<Rightarrow> int" where
  "bigGcd a b =
     (let a = (if a < 0 then - a else a);
          b = (if b < 0 then - b else b)
      in gcd_loop a b)"

definition gcdBigInt :: "int \<Rightarrow> int \<Rightarrow> int" where
  "gcdBigInt a b =
     (let a = (if a < 0 then - a else a);
          b = (if b < 0 then - b else b)
      in gcd_loop a b)"

section \<open>First program: class Fraction and lagrangeAtZeroFraction\<close>

record fraction =
  frac_n :: int
  frac_d :: int

definition Fraction :: "int \<Rightarrow> int \<Rightarrow> error + fraction" where
  "Fraction numer denom =
     (if denom = 0 then Inl Denominator_cannot_be_0
      else
        let (numer, denom) = (if denom < 0 then (- numer, - denom) else (numer, denom));
            g = bigGcd numer denom
        in ebind (bigint_div numer g) (\<lambda>n.
           ebind (bigint_div denom g) (\<lambda>d.
           Inr \<lparr>frac_n = n, frac_d = d\<rparr>)))"

definition Fraction_fromBigInt :: "int \<Rightarrow> error + fraction" where
  "Fraction_fromBigInt n = Fraction n 1"

definition Fraction_add :: "fraction \<Rightarrow> fraction \<Rightarrow> error + fraction" where
  "Fraction_add this other =
     Fraction (frac_n this * frac_d other + frac_n other * frac_d this)
              (frac_d this * frac_d other)"

definition Fraction_mul :: "fraction \<Rightarrow> fraction \<Rightarrow> error + fraction" where
  "Fraction_mul this other =
     Fraction (frac_n this * frac_n other) (frac_d this * frac_d other)"

text \<open>
  A point of the first program is the array \<^verbatim>\<open>[x, y]\<close>, here a pair; \<open>x\<close> is a
  Number holding an integer, which \<^verbatim>\<open>BigInt(x)\<close> converts, and \<open>y\<close> is a BigInt. The two
  \<^verbatim>\<open>for\<close> loops run over the indices \<open>0..<n\<close>; an error leaves both loops.
\<close>

fun Li_loop :: "(int \<times> int) list \<Rightarrow> int \<Rightarrow> nat \<Rightarrow> nat list \<Rightarrow> fraction \<Rightarrow> error + fraction" where
  "Li_loop pointsSubset xi i [] Li = Inr Li"
| "Li_loop pointsSubset xi i (j # js) Li =
     (if j = i then Li_loop pointsSubset xi i js Li
      else
        let xj = fst (pointsSubset ! j)
        in ebind (Fraction (- xj) (xi - xj)) (\<lambda>f.
           ebind (Fraction_mul Li f) (\<lambda>Li'.
           Li_loop pointsSubset xi i js Li')))"

fun res_loop :: "(int \<times> int) list \<Rightarrow> nat list \<Rightarrow> fraction \<Rightarrow> error + fraction" where
  "res_loop pointsSubset [] res = Inr res"
| "res_loop pointsSubset (i # is) res =
     (let xi = fst (pointsSubset ! i)
      in ebind (Fraction_fromBigInt (snd (pointsSubset ! i))) (\<lambda>yi.
         ebind (Fraction 1 1) (\<lambda>Li0.
         ebind (Li_loop pointsSubset xi i [0..<length pointsSubset] Li0) (\<lambda>Li.
         ebind (Fraction_mul yi Li) (\<lambda>t.
         ebind (Fraction_add res t) (\<lambda>res'.
         res_loop pointsSubset is res'))))))"

definition lagrangeAtZeroFraction :: "(int \<times> int) list \<Rightarrow> error + fraction" where
  "lagrangeAtZeroFraction pointsSubset =
     ebind (Fraction 0 1) (\<lambda>res.
     res_loop pointsSubset [0..<length pointsSubset] res)"

section \<open>Second program: class Rational\<close>

record rational =
  num :: int
  den :: int

definition Rational :: "int \<Rightarrow> int \<Rightarrow> error + rational" where
  "Rational n d =
     (if d = 0 then Inl Denominator_zero
      else
        let (n, d) = (if d < 0 then (- n, - d) else (n, d));
            g = gcdBigInt n d
        in ebind (bigint_div n g) (\<lambda>n'.
           ebind (bigint_div d g) (\<lambda>d'.
           Inr \<lparr>num = n', den = d'\<rparr>)))"

definition Rational_zero :: "error + rational" where
  "Rational_zero = Rational 0 1"

definition Rational_fromBigInt :: "int \<Rightarrow> error + rational" where
  "Rational_fromBigInt b = Rational b 1"

definition Rational_add :: "rational \<Rightarrow> rational \<Rightarrow> error + rational" where
  "Rational_add this other =
     (let n = num this * den other + num other * den this;
          d = den this * den other
      in Rational n d)"

definition Rational_sub :: "rational \<Rightarrow> rational \<Rightarrow> error + rational" where
  "Rational_sub this other =
     (let n = num this * den other - num other * den this;
          d = den this * den other
      in Rational n d)"

definition Rational_mul :: "rational \<Rightarrow> rational \<Rightarrow> error + rational" where
  "Rational_mul this other = Rational (num this * num other) (den this * den other)"

definition Rational_div :: "rational \<Rightarrow> rational \<Rightarrow> error + rational" where
  "Rational_div this other =
     (if num other = 0 then Inl Divide_by_zero
      else Rational (num this * den other) (den this * num other))"

definition Rational_neg :: "rational \<Rightarrow> error + rational" where
  "Rational_neg this = Rational (- num this) (den this)"

text \<open>\<^verbatim>\<open>toIntegerIfExact\<close>: \<open>None\<close> is the \<^verbatim>\<open>null\<close> of a value that is not integral.\<close>

definition toIntegerIfExact :: "rational \<Rightarrow> error + int option" where
  "toIntegerIfExact this =
     (if den this = 1 then Inr (Some (num this))
      else ebind (bigint_rem (num this) (den this)) (\<lambda>r.
           if r = 0 then ebind (bigint_div (num this) (den this)) (\<lambda>q. Inr (Some q))
           else Inr None))"

section \<open>Second program: reconstructAtOrigin\<close>

record share =
  share_x :: int
  share_y :: int

fun basis_loop :: "share list \<Rightarrow> int \<Rightarrow> nat \<Rightarrow> nat list \<Rightarrow> rational \<Rightarrow> error + rational" where
  "basis_loop dataSubset xPos i [] basisPoly = Inr basisPoly"
| "basis_loop dataSubset xPos i (j # js) basisPoly =
     (if j = i then basis_loop dataSubset xPos i js basisPoly
      else
        let xOther = share_x (dataSubset ! j)
        in ebind (Rational (- xOther) 1) (\<lambda>numerator.
           ebind (Rational (xPos - xOther) 1) (\<lambda>denominator.
           ebind (Rational_div numerator denominator) (\<lambda>q.
           ebind (Rational_mul basisPoly q) (\<lambda>basisPoly'.
           basis_loop dataSubset xPos i js basisPoly')))))"

fun total_loop :: "share list \<Rightarrow> nat list \<Rightarrow> rational \<Rightarrow> error + rational" where
  "total_loop dataSubset [] tot = Inr tot"
| "total_loop dataSubset (i # is) tot =
     (let xPos = share_x (dataSubset ! i)
      in ebind (Rational_fromBigInt (share_y (dataSubset ! i))) (\<lambda>yVal.
         ebind (Rational_fromBigInt 1) (\<lambda>one.
         ebind (basis_loop dataSubset xPos i [0..<length dataSubset] one) (\<lambda>basisPoly.
         ebind (Rational_mul yVal basisPoly) (\<lambda>t.
         ebind (Rational_add tot t) (\<lambda>tot'.
         total_loop dataSubset is tot'))))))"

definition reconstructAtOrigin :: "share list \<Rightarrow> error + rational" where
  "reconstructAtOrigin dataSubset =
     ebind Rational_zero (\<lambda>tot.
     total_loop dataSubset [0..<length dataSubset] tot)"

section \<open>Second program: chooseCombos\<close>

text \<open>
  \<^verbatim>\<open>arr[i]\<close> past the end of the array is \<^verbatim>\<open>undefined\<close> (\<open>None\<close>), so the entries of
  \<^verbatim>\<open>chosen\<close> are optional values.
\<close>

definition js_get :: "'a list \<Rightarrow> nat \<Rightarrow> 'a option" where
  "js_get arr i = (if i < length arr then Some (arr ! i) else None)"

text \<open>
  The closure \<^verbatim>\<open>backtrack(start, chosen)\<close> appends to the array \<^verbatim>\<open>result\<close> of the
  enclosing call, which is passed through here. \<open>Call start chosen\<close> is the entry of
  the closure, \<open>Loop i chosen\<close> its \<^verbatim>\<open>for\<close> loop standing at index \<open>i\<close>;
  \<^verbatim>\<open>chosen.push\<close> and \<^verbatim>\<open>chosen.pop\<close> around the recursive call are the extended list
  passed to it. \<open>k\<close> is the integer read from \<^verbatim>\<open>keys.k\<close>. The recursion need not end
  (it does not for a negative \<open>k\<close>), so a call that never returns is \<open>None\<close>.
\<close>

datatype 'a frame = Call nat "'a option list" | Loop nat "'a option list"

partial_function (option) backtrack ::
  "'a list \<Rightarrow> int \<Rightarrow> 'a frame \<Rightarrow> 'a option list list \<Rightarrow> 'a option list list option" where
  "backtrack arr k fr result =
     (case fr of
        Call start chosen \<Rightarrow>
          if int (length chosen) = k then Some (result @ [chosen])
          else backtrack arr k (Loop start chosen) result
      | Loop i chosen \<Rightarrow>
          if int i \<le> int (length arr) - (k - int (length chosen))
          then Option.bind (backtrack arr k (Call (i + 1) (chosen @ [js_get arr i])) result)
                 (\<lambda>result'. backtrack arr k (Loop (i + 1) chosen) result')
          else Some result)"

declare backtrack.simps [code]

definition chooseCombos :: "'a list \<Rightarrow> int \<Rightarrow> 'a option list list option" where
  "chooseCombos arr k = backtrack arr k (Call 0 []) []"

section \<open>Second program: recoverSecretFromJSON\<close>

text \<open>
  The function is modelled in two parts. The first is the loop that pushes the shares.
  An entry of the test case is a key of decimal digits, given by the integer it
  denotes (never negative), and the value \<open>yBig\<close> that \<^verbatim>\<open>parseBigIntFromBase\<close> decodes
  exactly from the digits of the entry. The x-coordinate is \<^verbatim>\<open>BigInt(Number(key))\<close>:
  \<^verbatim>\<open>Number\<close> gives the nearest double (\<open>None\<close> is \<^verbatim>\<open>Infinity\<close>), and \<^verbatim>\<open>BigInt\<close> of an
  integral double is that integer, of \<^verbatim>\<open>Infinity\<close> a RangeError. A double has 53
  significant bits: an integer with \<open>b > 53\<close> bits is rounded to the nearest multiple of
  \<open>2 ^ (b - 53)\<close>, a tie to the multiple with the even quotient, and a result of
  \<open>2 ^ 1024\<close> or more is \<^verbatim>\<open>Infinity\<close>.
\<close>

function bit_length :: "int \<Rightarrow> nat" where
  "bit_length n = (if n \<le> 0 then 0 else Suc (bit_length (n div 2)))"
  by pat_completeness auto
termination
  by (relation "measure nat") auto

declare bit_length.simps [simp del]

definition Number_of_digits :: "int \<Rightarrow> int option" where
  "Number_of_digits n =
     (let b = bit_length n
      in if b \<le> 53 then Some n
         else
           let e = b - 53;
               q = n div 2 ^ e;
               r = n mod 2 ^ e;
               h = 2 ^ (e - 1);
               m = (if h < r \<or> (r = h \<and> odd q) then q + 1 else q);
               v = m * 2 ^ e
           in if 2 ^ 1024 \<le> v then None else Some v)"

definition BigInt_of_Number :: "int option \<Rightarrow> error + int" where
  "BigInt_of_Number xNum =
     (case xNum of None \<Rightarrow> Inl RangeError_not_an_integer | Some v \<Rightarrow> Inr v)"

record entry =
  entry_key :: int
  entry_y :: int

fun push_loop :: "entry list \<Rightarrow> share list \<Rightarrow> error + share list" where
  "push_loop [] shares = Inr shares"
| "push_loop (e # es) shares =
     (let xNum = Number_of_digits (entry_key e);
          yBig = entry_y e
      in ebind (BigInt_of_Number xNum) (\<lambda>x.
         push_loop es (shares @ [\<lparr>share_x = x, share_y = yBig\<rparr>])))"

text \<open>
  The second part, \<open>recoverSecretFromJSON\<close>, is the function from \<^verbatim>\<open>shares.sort\<close> on: it
  starts from the integer \<open>k\<close> of \<^verbatim>\<open>keys.k\<close> and the shares as the loop has
  pushed them; \<^verbatim>\<open>sort\<close> is stable, as \<open>sort_key\<close> is. A key of
  the two maps is the string \<^verbatim>\<open>num/den\<close>, here the pair of the two integers, which the
  string determines and which \<^verbatim>\<open>split('/')\<close> and \<^verbatim>\<open>BigInt\<close> read back from it. A
  \<^verbatim>\<open>Map\<close> is an association list in insertion order: \<^verbatim>\<open>set\<close> on a present key keeps
  its place (\<open>AList.update\<close>). The result is \<open>None\<close> when \<^verbatim>\<open>chooseCombos\<close> does not
  return, \<open>Some (Inl e)\<close> for a thrown error and \<open>Some (Inr v)\<close> for a returned object.
\<close>

type_synonym key = "int \<times> int"

text \<open>
  \<^verbatim>\<open>c.map(i => shares[i])\<close> may hold undefined entries; reading \<^verbatim>\<open>.x\<close> of one raises
  a TypeError. The tally loop raises it for a subset with such an entry without
  interpolating the entries before it; no combination that \<^verbatim>\<open>chooseCombos\<close> returns has
  one (lemma \<open>recover_errors\<close> below).
\<close>

definition subset_of :: "share list \<Rightarrow> nat option list \<Rightarrow> share option list" where
  "subset_of shares c = map (\<lambda>i. case i of None \<Rightarrow> None | Some j \<Rightarrow> js_get shares j) c"

fun defined_list :: "'a option list \<Rightarrow> 'a list option" where
  "defined_list [] = Some []"
| "defined_list (None # xs) = None"
| "defined_list (Some v # xs) = map_option ((#) v) (defined_list xs)"

fun tally_loop ::
  "share list \<Rightarrow> nat option list list \<Rightarrow> (key \<times> int) list \<times> (key \<times> share list) list
     \<Rightarrow> error + ((key \<times> int) list \<times> (key \<times> share list) list)" where
  "tally_loop shares [] (frequency, comboTrace) = Inr (frequency, comboTrace)"
| "tally_loop shares (c # cs) (frequency, comboTrace) =
     (case defined_list (subset_of shares c) of
        None \<Rightarrow> Inl TypeError_undefined
      | Some subset_c \<Rightarrow>
          ebind (reconstructAtOrigin subset_c) (\<lambda>candidate.
            let key = (num candidate, den candidate);
                frequency' =
                  AList.update key
                    ((case map_of frequency key of None \<Rightarrow> 0 | Some v \<Rightarrow> v) + 1) frequency;
                comboTrace' =
                  (if map_of comboTrace key = None then AList.update key subset_c comboTrace
                   else comboTrace)
            in tally_loop shares cs (frequency', comboTrace')))"

fun top_loop :: "(key \<times> int) list \<Rightarrow> key option \<times> int \<Rightarrow> key option \<times> int" where
  "top_loop [] (topKey, topCount) = (topKey, topCount)"
| "top_loop ((kstr, v) # rest) (topKey, topCount) =
     (if v > topCount then top_loop rest (Some kstr, v)
      else top_loop rest (topKey, topCount))"

datatype recovered =
    Secret int "share list option"
  | SecretFraction rational "share list option"

definition recoverSecretFromJSON :: "int \<Rightarrow> share list \<Rightarrow> (error + recovered) option" where
  "recoverSecretFromJSON k pushed =
     (let shares = sort_key share_x pushed
      in if int (length shares) < k then Some (Inl Not_enough_shares_in_input)
         else
           case chooseCombos [0..<length shares] k of
             None \<Rightarrow> None
           | Some allCombos \<Rightarrow>
               Some (ebind (tally_loop shares allCombos ([], [])) (\<lambda>(frequency, comboTrace).
                 case fst (top_loop frequency (None, - 1)) of
                   None \<Rightarrow> Inl Could_not_determine_consensus_secret
                 | Some (numStr, denStr) \<Rightarrow>
                     ebind (Rational numStr denStr) (\<lambda>secretFrac.
                     ebind (toIntegerIfExact secretFrac) (\<lambda>intValue.
                       case intValue of
                         None \<Rightarrow>
                           Inr (SecretFraction secretFrac (map_of comboTrace (numStr, denStr)))
                       | Some v \<Rightarrow> Inr (Secret v (map_of comboTrace (numStr, denStr))))))))"

text \<open>The whole function on a test case: the loop, then the part above.\<close>

definition recoverSecretFromJSON_testcase ::
  "int \<Rightarrow> entry list \<Rightarrow> (error + recovered) option" where
  "recoverSecretFromJSON_testcase k entries =
     (case push_loop entries [] of
        Inl e \<Rightarrow> Some (Inl e)
      | Inr pushed \<Rightarrow> recoverSecretFromJSON k pushed)"

section \<open>Notions of the specification\<close>

text \<open>
  The normal form of a rational: a positive denominator, and numerator and denominator
  without a common divisor. \<open>val\<close> is the number a rational stands for.
\<close>

definition normal_form :: "rational \<Rightarrow> bool" where
  "normal_form r \<longleftrightarrow> 0 < den r \<and> gcd \<bar>num r\<bar> \<bar>den r\<bar> = 1"

definition val :: "rational \<Rightarrow> real" where
  "val r = real_of_int (num r) / real_of_int (den r)"

text \<open>
  The value that \<^verbatim>\<open>reconstructAtOrigin\<close> computes, as a real number:
  \<open>\<Sum>i. y\<^sub>i * \<Prod>j\<noteq>i. - x\<^sub>j / (x\<^sub>i - x\<^sub>j)\<close>, over the indices of the list. Two
  entries \<open>clash\<close> when they have the same x-coordinate.
\<close>

definition basis_factor :: "share list \<Rightarrow> int \<Rightarrow> nat \<Rightarrow> real" where
  "basis_factor ds xPos j =
     - real_of_int (share_x (ds ! j)) / (real_of_int xPos - real_of_int (share_x (ds ! j)))"

definition basis_at :: "share list \<Rightarrow> nat \<Rightarrow> real" where
  "basis_at ds i =
     prod_list (map (basis_factor ds (share_x (ds ! i))) (filter (\<lambda>j. j \<noteq> i) [0..<length ds]))"

definition clash :: "share list \<Rightarrow> nat \<Rightarrow> bool" where
  "clash ds i \<longleftrightarrow> (\<exists>j<length ds. j \<noteq> i \<and> share_x (ds ! j) = share_x (ds ! i))"

definition lagrange_at_0 :: "share list \<Rightarrow> real" where
  "lagrange_at_0 ds = sum_list (map (\<lambda>i. real_of_int (share_y (ds ! i)) * basis_at ds i) [0..<length ds])"

text \<open>
  A polynomial with integer coefficients, lowest degree first, evaluated by Horner's
  rule over the integers and over the reals, and the functions on the reals that are
  polynomials of degree at most \<open>n\<close>.
\<close>

fun poly_eval :: "int list \<Rightarrow> int \<Rightarrow> int" where
  "poly_eval [] t = 0"
| "poly_eval (c # cs) t = c + t * poly_eval cs t"

fun rpoly :: "int list \<Rightarrow> real \<Rightarrow> real" where
  "rpoly [] t = 0"
| "rpoly (c # cs) t = real_of_int c + t * rpoly cs t"

definition polyfun_le :: "nat \<Rightarrow> (real \<Rightarrow> real) \<Rightarrow> bool" where
  "polyfun_le n f \<longleftrightarrow> (\<exists>c. \<forall>t. f t = (\<Sum>i\<le>n. c i * t ^ i))"

text \<open>The Lagrange interpolant through the points of \<open>ds\<close>, as a function of \<open>t\<close>.\<close>

definition xr :: "share list \<Rightarrow> nat \<Rightarrow> real" where
  "xr ds j = real_of_int (share_x (ds ! j))"

definition lbasis :: "share list \<Rightarrow> nat \<Rightarrow> real \<Rightarrow> real" where
  "lbasis ds i t =
     prod_list (map (\<lambda>j. (t - xr ds j) / (xr ds i - xr ds j)) (filter (\<lambda>j. j \<noteq> i) [0..<length ds]))"

definition linterp :: "share list \<Rightarrow> real \<Rightarrow> real" where
  "linterp ds t = sum_list (map (\<lambda>i. real_of_int (share_y (ds ! i)) * lbasis ds i t) [0..<length ds])"

text \<open>
  The two programs keep their data in different shapes: a \<^verbatim>\<open>Fraction\<close> read as a
  \<^verbatim>\<open>Rational\<close>, and a point \<^verbatim>\<open>[x, y]\<close> read as a share \<^verbatim>\<open>{x, y}\<close>.
\<close>

definition rat_of :: "fraction \<Rightarrow> rational" where
  "rat_of f = \<lparr>num = frac_n f, den = frac_d f\<rparr>"

definition share_of :: "int \<times> int \<Rightarrow> share" where
  "share_of p = \<lparr>share_x = fst p, share_y = snd p\<rparr>"

text \<open>
  The \<open>k\<close>-element subsequences of a list, in the order in which \<^verbatim>\<open>chooseCombos\<close>
  produces them.
\<close>

fun combos :: "nat \<Rightarrow> 'a list \<Rightarrow> 'a list list" where
  "combos 0 xs = [[]]"
| "combos (Suc k) [] = []"
| "combos (Suc k) (x # xs) = map ((#) x) (combos k xs) @ combos (Suc k) xs"

text \<open>
  One round of the tally loop on the entry (key, subset) that a combination produces,
  the entry itself, the key a combination produces, the number of combinations that
  produce a key, and the keys of a list in the order of their first occurrence.
\<close>

definition tally_step ::
  "(key \<times> int) list \<times> (key \<times> share list) list \<Rightarrow> key \<times> share list
     \<Rightarrow> (key \<times> int) list \<times> (key \<times> share list) list" where
  "tally_step st e =
     (AList.update (fst e) ((case map_of (fst st) (fst e) of None \<Rightarrow> 0 | Some v \<Rightarrow> v) + 1) (fst st),
      if map_of (snd st) (fst e) = None then AList.update (fst e) (snd e) (snd st) else snd st)"

definition candidate :: "share list \<Rightarrow> nat option list \<Rightarrow> error + (key \<times> share list)" where
  "candidate shares c =
     (case defined_list (subset_of shares c) of
        None \<Rightarrow> Inl TypeError_undefined
      | Some sub \<Rightarrow> ebind (reconstructAtOrigin sub) (\<lambda>r. Inr ((num r, den r), sub)))"

definition result_key :: "share list \<Rightarrow> nat option list \<Rightarrow> key option" where
  "result_key shares c = (case candidate shares c of Inl e \<Rightarrow> None | Inr e \<Rightarrow> Some (fst e))"

definition votes :: "share list \<Rightarrow> nat option list list \<Rightarrow> key \<Rightarrow> nat" where
  "votes shares cs k = count_list (map (result_key shares) cs) (Some k)"

fun first_keys :: "'a list \<Rightarrow> 'a list" where
  "first_keys [] = []"
| "first_keys (x # xs) = x # filter (\<lambda>y. y \<noteq> x) (first_keys xs)"

text \<open>
  The line \<open>y = 2x + 3\<close>, for a share and for an entry of a test case with its key as
  x-coordinate, the share that an entry stands for, the value at 0 of the line through
  two points, and the key that \<^verbatim>\<open>reconstructAtOrigin\<close> produces for a pair of shares.
\<close>

definition on_line :: "share \<Rightarrow> bool" where
  "on_line p \<longleftrightarrow> share_y p = 2 * share_x p + 3"

definition pv :: "share \<Rightarrow> share \<Rightarrow> real" where
  "pv p q =
     (real_of_int (share_x q) * real_of_int (share_y p)
        - real_of_int (share_x p) * real_of_int (share_y q))
     / (real_of_int (share_x q) - real_of_int (share_x p))"

definition share_of_entry :: "entry \<Rightarrow> share" where
  "share_of_entry e = \<lparr>share_x = entry_key e, share_y = entry_y e\<rparr>"

definition entry_on_line :: "entry \<Rightarrow> bool" where
  "entry_on_line e \<longleftrightarrow> entry_y e = 2 * entry_key e + 3"

definition pair_key :: "share \<Rightarrow> share \<Rightarrow> key" where
  "pair_key p q = (case reconstructAtOrigin [p, q] of Inl e \<Rightarrow> (0, 0) | Inr r \<Rightarrow> (num r, den r))"

section \<open>BigInt and Rational: lemmas\<close>

lemma smod_nonneg: "0 \<le> a \<Longrightarrow> 0 \<le> b \<Longrightarrow> a smod b = a mod (b::int)"
  by (cases "a = 0") (simp_all add: signed_modulo_int_def)

lemma gcd_loop_eq: "0 \<le> a \<Longrightarrow> 0 \<le> b \<Longrightarrow> gcd_loop a b = gcd a b"
proof (induction a b rule: gcd_loop.induct)
  case (1 a b)
  show ?case
  proof (cases "b = 0")
    case True
    with 1 show ?thesis by (simp add: gcd_loop.simps)
  next
    case False
    with 1 have m: "a smod b = a mod b" and nn: "0 \<le> a mod b"
      by (simp_all add: smod_nonneg)
    from False 1 m nn have "gcd_loop b (a smod b) = gcd b (a mod b)" by simp
    with False show ?thesis
      by (subst gcd_loop.simps) (simp add: gcd_red_int [of a b])
  qed
qed

lemma gcdBigInt_eq: "gcdBigInt a b = gcd a b"
  by (simp add: gcdBigInt_def Let_def gcd_loop_eq gcd_neg1_int gcd_neg2_int)

lemma bigGcd_eq: "bigGcd a b = gcd a b"
  by (simp add: bigGcd_def Let_def gcd_loop_eq gcd_neg1_int gcd_neg2_int)

lemma sdiv_exact: "g dvd a \<Longrightarrow> a sdiv g = a div (g::int)"
  by (simp add: signed_divide_int_eq_divide_int)


lemma Rational_eq:
  assumes "d \<noteq> 0"
  shows "Rational n d = Inr \<lparr>num = (sgn d * n) div gcd n d, den = \<bar>d\<bar> div gcd n d\<rparr>"
proof -
  have g0: "gcd n d \<noteq> 0" using assms by simp
  have d1: "gcd n d dvd n" "gcd n d dvd d" "gcd n d dvd - n" "gcd n d dvd - d" by simp_all
  show ?thesis
  proof (cases "d < 0")
    case True
    then have "sgn d = - 1" "\<bar>d\<bar> = - d" by simp_all
    with True assms g0 d1 show ?thesis
      by (simp add: Rational_def gcdBigInt_eq bigint_div_def sdiv_exact Let_def dvd_neg_div)
  next
    case False
    with assms have "sgn d = 1" "\<bar>d\<bar> = d" by simp_all
    with False assms g0 d1 show ?thesis
      by (simp add: Rational_def gcdBigInt_eq bigint_div_def sdiv_exact Let_def)
  qed
qed

lemma Rational_zero_den: "Rational n 0 = Inl Denominator_zero"
  by (simp add: Rational_def)

lemma Rational_Inr_iff: "(\<exists>r. Rational n d = Inr r) \<longleftrightarrow> d \<noteq> 0"
  by (cases "d = 0") (simp_all add: Rational_eq Rational_zero_den)

lemma Rational_normal:
  assumes "Rational n d = Inr r"
  shows "normal_form r"
proof -
  from assms have d: "d \<noteq> 0" by (auto simp: Rational_zero_den)
  let ?g = "gcd n d"
  have g: "0 < ?g" using d by (simp add: less_le)
  from assms d have r: "num r = (sgn d * n) div ?g" "den r = \<bar>d\<bar> div ?g"
    by (auto simp: Rational_eq)
  have "?g dvd \<bar>d\<bar>" by simp
  moreover have "0 < \<bar>d\<bar>" using d by simp
  ultimately have pos: "0 < \<bar>d\<bar> div ?g"
    using g by (simp add: pos_imp_zdiv_pos_iff zdvd_imp_le)
  have "gcd (sgn d * n) \<bar>d\<bar> = ?g"
    using d by (cases "d < 0") simp_all
  then have "gcd ((sgn d * n) div ?g) (\<bar>d\<bar> div ?g) = 1"
    using g by (metis div_gcd_coprime coprime_iff_gcd_eq_1 abs_eq_0 d)
  then show ?thesis using pos r by (simp add: normal_form_def)
qed

lemma Rational_val:
  assumes "Rational n d = Inr r"
  shows "val r = real_of_int n / real_of_int d"
proof -
  from assms have d: "d \<noteq> 0" by (auto simp: Rational_zero_den)
  let ?g = "gcd n d"
  have g: "?g \<noteq> 0" using d by simp
  from assms d have r: "num r = (sgn d * n) div ?g" "den r = \<bar>d\<bar> div ?g"
    by (auto simp: Rational_eq)
  have 1: "real_of_int ((sgn d * n) div ?g) = real_of_int (sgn d * n) / real_of_int ?g"
    by (rule real_of_int_div) simp
  have 2: "real_of_int (\<bar>d\<bar> div ?g) = real_of_int \<bar>d\<bar> / real_of_int ?g"
    by (rule real_of_int_div) simp
  have "val r = real_of_int (sgn d * n) / real_of_int \<bar>d\<bar>"
    unfolding val_def r 1 2 using g by simp
  also have "\<dots> = real_of_int n / real_of_int d"
    using d by (cases "d < 0") simp_all
  finally show ?thesis .
qed

lemma normal_form_unique:
  assumes "normal_form a" "normal_form b" "num a * den b = num b * den a"
  shows "a = b"
proof -
  from assms have pa: "0 < den a" and pb: "0 < den b"
    and ca: "coprime (num a) (den a)" and cb: "coprime (num b) (den b)"
    by (simp_all add: normal_form_def coprime_iff_gcd_eq_1)
  have "den a dvd num a * den b" using assms(3) by simp
  with ca have "den a dvd den b"
    by (metis coprime_commute coprime_dvd_mult_right_iff)
  moreover have "den b dvd num b * den a" using assms(3) [symmetric] by simp
  with cb have "den b dvd den a"
    by (metis coprime_commute coprime_dvd_mult_right_iff)
  ultimately have e: "den a = den b" using pa pb by (simp add: zdvd_antisym_nonneg)
  with assms(3) pa have "num a = num b" by simp
  with e show ?thesis by simp
qed

lemma normal_form_val_eq:
  assumes "normal_form a" "normal_form b" "val a = val b"
  shows "a = b"
proof -
  from assms have pa: "den a \<noteq> 0" and pb: "den b \<noteq> 0" by (auto simp: normal_form_def)
  from assms(3) pa pb have "real_of_int (num a) * real_of_int (den b) = real_of_int (num b) * real_of_int (den a)"
    by (simp add: val_def field_simps)
  then have "num a * den b = num b * den a"
    by (metis of_int_mult of_int_eq_iff)
  with assms show ?thesis by (rule_tac normal_form_unique)
qed


lemma Rational_ok:
  assumes "d \<noteq> 0"
  shows "\<exists>r. Rational n d = Inr r \<and> normal_form r \<and> val r = real_of_int n / real_of_int d"
proof -
  from assms obtain r where "Rational n d = Inr r" by (auto simp: Rational_eq)
  then show ?thesis using Rational_normal Rational_val by blast
qed

lemma Rational_add_ok:
  assumes "den a \<noteq> 0" "den b \<noteq> 0"
  shows "\<exists>r. Rational_add a b = Inr r \<and> normal_form r \<and> val r = val a + val b"
proof -
  from assms have "den a * den b \<noteq> 0" by simp
  from Rational_ok [OF this, of "num a * den b + num b * den a"] assms
  show ?thesis by (simp add: Rational_add_def val_def field_simps)
qed

lemma Rational_sub_ok:
  assumes "den a \<noteq> 0" "den b \<noteq> 0"
  shows "\<exists>r. Rational_sub a b = Inr r \<and> normal_form r \<and> val r = val a - val b"
proof -
  from assms have "den a * den b \<noteq> 0" by simp
  from Rational_ok [OF this, of "num a * den b - num b * den a"] assms
  show ?thesis by (simp add: Rational_sub_def val_def field_simps)
qed

lemma Rational_mul_ok:
  assumes "den a \<noteq> 0" "den b \<noteq> 0"
  shows "\<exists>r. Rational_mul a b = Inr r \<and> normal_form r \<and> val r = val a * val b"
proof -
  from assms have "den a * den b \<noteq> 0" by simp
  from Rational_ok [OF this, of "num a * num b"] assms
  show ?thesis by (simp add: Rational_mul_def val_def)
qed

lemma Rational_div_ok:
  assumes "den a \<noteq> 0" "den b \<noteq> 0" "num b \<noteq> 0"
  shows "\<exists>r. Rational_div a b = Inr r \<and> normal_form r \<and> val r = val a / val b"
proof -
  from assms have "den a * num b \<noteq> 0" by simp
  from Rational_ok [OF this, of "num a * den b"] assms
  show ?thesis by (simp add: Rational_div_def val_def)
qed

lemma Rational_div_zero: "num b = 0 \<Longrightarrow> Rational_div a b = Inl Divide_by_zero"
  by (simp add: Rational_div_def)

lemma Rational_neg_ok:
  assumes "den a \<noteq> 0"
  shows "\<exists>r. Rational_neg a = Inr r \<and> normal_form r \<and> val r = - val a"
  using Rational_ok [OF assms, of "- num a"] by (simp add: Rational_neg_def val_def)

lemma normal_form_den: "normal_form r \<Longrightarrow> den r \<noteq> 0"
  by (simp add: normal_form_def)

lemma normal_form_zero: "normal_form r \<Longrightarrow> num r = 0 \<Longrightarrow> den r = 1"
  by (auto simp: normal_form_def)

lemma op_results_normal:
  assumes "Rational n d = Inr r \<or> Rational_add a b = Inr r \<or> Rational_sub a b = Inr r
     \<or> Rational_mul a b = Inr r \<or> Rational_div a b = Inr r \<or> Rational_neg a = Inr r"
  shows "normal_form r"
  using assms
  by (auto simp: Rational_add_def Rational_sub_def Rational_mul_def Rational_div_def
      Rational_neg_def Let_def split: if_splits intro: Rational_normal)

lemma smod_eq_0_iff: "b \<noteq> 0 \<Longrightarrow> a smod b = 0 \<longleftrightarrow> b dvd (a::int)"
  by (cases "a = 0") (simp_all add: signed_modulo_int_def mod_eq_0_iff_dvd sgn_0_0)

lemma Rational_of_dvd:
  assumes "d \<noteq> 0" "d dvd n"
  shows "Rational n d = Inr \<lparr>num = n div d, den = 1\<rparr>"
proof -
  from Rational_ok [OF assms(1), of n] obtain r where
    r: "Rational n d = Inr r" "normal_form r" "val r = real_of_int n / real_of_int d" by blast
  have "real_of_int (n div d) = real_of_int n / real_of_int d"
    using assms(2) by (rule real_of_int_div)
  then have "val \<lparr>num = n div d, den = 1\<rparr> = val r" using r(3) by (simp add: val_def)
  moreover have "normal_form \<lparr>num = n div d, den = 1\<rparr>" by (simp add: normal_form_def)
  ultimately have "\<lparr>num = n div d, den = 1\<rparr> = r" using r(2) by (rule_tac normal_form_val_eq)
  with r(1) show ?thesis by simp
qed

lemma Rational_cross:
  assumes "Rational n d = Inr r"
  shows "num r * d = n * den r"
proof -
  from assms have d: "d \<noteq> 0" by (auto simp: Rational_zero_den)
  from Rational_normal [OF assms] have "den r \<noteq> 0" by (rule normal_form_den)
  with Rational_val [OF assms] d
  have "real_of_int (num r) * real_of_int d = real_of_int n * real_of_int (den r)"
    by (simp add: val_def field_simps)
  then show ?thesis by (metis of_int_mult of_int_eq_iff)
qed

lemma toIntegerIfExact_normal:
  assumes "normal_form r"
  shows "toIntegerIfExact r = Inr (if den r = 1 then Some (num r) else None)"
proof (cases "den r = 1")
  case True
  then show ?thesis by (simp add: toIntegerIfExact_def)
next
  case False
  from assms have p: "0 < den r" and c: "coprime (num r) (den r)"
    by (simp_all add: normal_form_def coprime_iff_gcd_eq_1)
  have "\<not> den r dvd num r"
  proof
    assume "den r dvd num r"
    with c have "is_unit (den r)" by (metis coprime_absorb_right coprime_commute)
    with p False show False by simp
  qed
  with p False show ?thesis
    by (simp add: toIntegerIfExact_def bigint_rem_def smod_eq_0_iff)
qed

text \<open>
  C8: for every integer \<open>n\<close> and every non-zero integer \<open>d\<close> of either sign,
  constructing the rational \<open>n/d\<close> and asking \<^verbatim>\<open>toIntegerIfExact\<close> gives the integer
  \<open>n div d\<close> when \<open>d\<close> divides \<open>n\<close>, and \<^verbatim>\<open>null\<close> otherwise.
\<close>

theorem toIntegerIfExact_roundtrip:
  assumes "d \<noteq> 0"
  shows "ebind (Rational n d) toIntegerIfExact = Inr (if d dvd n then Some (n div d) else None)"
proof (cases "d dvd n")
  case True
  with assms show ?thesis
    by (simp add: Rational_of_dvd toIntegerIfExact_def)
next
  case False
  from Rational_ok [OF assms, of n] obtain r where
    r: "Rational n d = Inr r" "normal_form r" by blast
  have "den r \<noteq> 1"
  proof
    assume "den r = 1"
    with Rational_cross [OF r(1)] have "n = num r * d" by simp
    with False show False by simp
  qed
  with r False show ?thesis by (simp add: toIntegerIfExact_normal)
qed

theorem toIntegerIfExact_roundtrip_witness:
  "(- 4 :: int) \<noteq> 0
   \<and> ebind (Rational 6 (- 4)) toIntegerIfExact = Inr None
   \<and> ebind (Rational 12 (- 4)) toIntegerIfExact = Inr (Some (- 3))"
  using toIntegerIfExact_roundtrip [of "- 4" 6] toIntegerIfExact_roundtrip [of "- 4" 12]
  by simp

text \<open>
  C4: every rational that the constructor or an arithmetic operation returns is in
  normal form, with zero as \<open>0/1\<close>; the operations do return on such values (the
  constructor for a non-zero denominator, \<^verbatim>\<open>div\<close> for a non-zero divisor); and two
  values in normal form that stand for the same number are the same record.
\<close>

theorem rational_normal_form:
  "(d \<noteq> 0 \<longrightarrow> (\<exists>q. Rational n d = Inr q))
   \<and> (normal_form a \<and> normal_form b \<longrightarrow>
        (\<exists>q. Rational_add a b = Inr q) \<and> (\<exists>q. Rational_sub a b = Inr q)
        \<and> (\<exists>q. Rational_mul a b = Inr q) \<and> (\<exists>q. Rational_neg a = Inr q)
        \<and> (num b \<noteq> 0 \<longrightarrow> (\<exists>q. Rational_div a b = Inr q)))
   \<and> (Rational n d = Inr r \<or> Rational_add a b = Inr r \<or> Rational_sub a b = Inr r
        \<or> Rational_mul a b = Inr r \<or> Rational_div a b = Inr r \<or> Rational_neg a = Inr r
        \<longrightarrow> 0 < den r \<and> gcd \<bar>num r\<bar> \<bar>den r\<bar> = 1 \<and> (num r = 0 \<longrightarrow> den r = 1))
   \<and> (normal_form r \<and> normal_form r' \<and> num r * den r' = num r' * den r \<longrightarrow> r = r')"
proof (intro conjI impI)
  assume "d \<noteq> 0"
  then show "\<exists>q. Rational n d = Inr q" using Rational_ok by blast
next
  assume "normal_form a \<and> normal_form b"
  then show "\<exists>q. Rational_add a b = Inr q"
    using Rational_add_ok normal_form_den by blast
next
  assume "normal_form a \<and> normal_form b"
  then show "\<exists>q. Rational_sub a b = Inr q"
    using Rational_sub_ok normal_form_den by blast
next
  assume "normal_form a \<and> normal_form b"
  then show "\<exists>q. Rational_mul a b = Inr q"
    using Rational_mul_ok normal_form_den by blast
next
  assume "normal_form a \<and> normal_form b"
  then show "\<exists>q. Rational_neg a = Inr q"
    using Rational_neg_ok normal_form_den by blast
next
  assume "normal_form a \<and> normal_form b" and "num b \<noteq> 0"
  then show "\<exists>q. Rational_div a b = Inr q"
    using Rational_div_ok normal_form_den by blast
next
  assume h: "Rational n d = Inr r \<or> Rational_add a b = Inr r \<or> Rational_sub a b = Inr r
        \<or> Rational_mul a b = Inr r \<or> Rational_div a b = Inr r \<or> Rational_neg a = Inr r"
  then have nf: "normal_form r" by (rule op_results_normal)
  then show "0 < den r" and "gcd \<bar>num r\<bar> \<bar>den r\<bar> = 1" by (simp_all add: normal_form_def)
  assume "num r = 0"
  with nf show "den r = 1" by (rule normal_form_zero)
next
  assume "normal_form r \<and> normal_form r' \<and> num r * den r' = num r' * den r"
  then show "r = r'" using normal_form_unique by blast
qed

theorem rational_normal_form_witness:
  "Rational 6 (- 4) = Inr \<lparr>num = - 3, den = 2\<rparr>
   \<and> normal_form \<lparr>num = - 3, den = 2\<rparr>
   \<and> normal_form \<lparr>num = 1, den = 3\<rparr>
   \<and> (\<exists>q. Rational_div \<lparr>num = - 3, den = 2\<rparr> \<lparr>num = 1, den = 3\<rparr> = Inr q)
   \<and> gcd \<bar>num \<lparr>num = - 3, den = 2\<rparr>\<bar> \<bar>den \<lparr>num = - 3, den = 2\<rparr>\<bar> = 1"
proof -
  have c: "Rational 6 (- 4) = Inr \<lparr>num = - 3, den = 2\<rparr>" by code_simp
  have n1: "normal_form \<lparr>num = - 3, den = 2\<rparr>" by code_simp
  have n2: "normal_form \<lparr>num = 1, den = 3\<rparr>" by code_simp
  from rational_normal_form [where n = 6 and d = "- 4" and r = "\<lparr>num = - 3, den = 2\<rparr>"
      and a = "\<lparr>num = - 3, den = 2\<rparr>" and b = "\<lparr>num = 1, den = 3\<rparr>"
      and r' = "\<lparr>num = - 3, den = 2\<rparr>"] c n1 n2
  show ?thesis by simp
qed

section \<open>reconstructAtOrigin: lemmas\<close>

lemma Rational_int: "Rational n 1 = Inr \<lparr>num = n, den = 1\<rparr>"
  using Rational_of_dvd [of 1 n] by simp

lemma basis_step:
  assumes "xPos \<noteq> xOther" "normal_form bp"
  shows "\<exists>bp'. ebind (Rational (- xOther) 1) (\<lambda>numerator.
           ebind (Rational (xPos - xOther) 1) (\<lambda>denominator.
           ebind (Rational_div numerator denominator) (\<lambda>q.
           ebind (Rational_mul bp q) F))) = F bp'
         \<and> normal_form bp'
         \<and> val bp' = val bp * (- real_of_int xOther / (real_of_int xPos - real_of_int xOther))"
proof -
  have nz: "xPos - xOther \<noteq> 0" using assms(1) by simp
  from Rational_ok [OF nz, of "- xOther"] obtain q where
    q: "Rational (- xOther) (xPos - xOther) = Inr q" "normal_form q"
       "val q = real_of_int (- xOther) / real_of_int (xPos - xOther)" by blast
  have d: "Rational_div \<lparr>num = - xOther, den = 1\<rparr> \<lparr>num = xPos - xOther, den = 1\<rparr> = Inr q"
    using nz q(1) by (simp add: Rational_div_def)
  from Rational_mul_ok [of bp q] assms(2) q(2) obtain bp' where
    m: "Rational_mul bp q = Inr bp'" "normal_form bp'" "val bp' = val bp * val q"
    using normal_form_den by blast
  show ?thesis
    using d m q(3) by (intro exI [of _ bp']) (simp add: Rational_int)
qed

lemma basis_loop_ok:
  assumes "\<forall>j\<in>set js. j \<noteq> i \<longrightarrow> share_x (ds ! j) \<noteq> xPos" "normal_form bp"
  shows "\<exists>r. basis_loop ds xPos i js bp = Inr r \<and> normal_form r
           \<and> val r = val bp * prod_list (map (basis_factor ds xPos) (filter (\<lambda>j. j \<noteq> i) js))"
  using assms
proof (induction js arbitrary: bp)
  case Nil
  then show ?case by simp
next
  case (Cons j js)
  show ?case
  proof (cases "j = i")
    case True
    with Cons show ?thesis by simp
  next
    case False
    with Cons.prems have ne: "xPos \<noteq> share_x (ds ! j)" by auto
    from basis_step [OF ne Cons.prems(2), of "\<lambda>bp'. basis_loop ds xPos i js bp'"]
    obtain bp' where s: "basis_loop ds xPos i (j # js) bp = basis_loop ds xPos i js bp'"
      "normal_form bp'" "val bp' = val bp * basis_factor ds xPos j"
      using False by (auto simp: basis_factor_def Let_def)
    from Cons.IH [OF _ s(2)] Cons.prems(1) obtain r where
      "basis_loop ds xPos i js bp' = Inr r" "normal_form r"
      "val r = val bp' * prod_list (map (basis_factor ds xPos) (filter (\<lambda>j. j \<noteq> i) js))"
      by auto
    with s False show ?thesis by (simp add: mult.assoc)
  qed
qed

lemma basis_loop_err:
  assumes "\<exists>j\<in>set js. j \<noteq> i \<and> share_x (ds ! j) = xPos" "normal_form bp"
  shows "basis_loop ds xPos i js bp = Inl Divide_by_zero"
  using assms
proof (induction js arbitrary: bp)
  case Nil
  then show ?case by simp
next
  case (Cons j js)
  show ?case
  proof (cases "j = i")
    case True
    with Cons show ?thesis by simp
  next
    case False
    show ?thesis
    proof (cases "share_x (ds ! j) = xPos")
      case True
      with False show ?thesis
        by (simp add: Rational_int Rational_div_def)
    next
      case ne: False
      then have ne': "xPos \<noteq> share_x (ds ! j)" by simp
      from basis_step [OF ne' Cons.prems(2), of "\<lambda>bp'. basis_loop ds xPos i js bp'"]
      obtain bp' where s: "basis_loop ds xPos i (j # js) bp = basis_loop ds xPos i js bp'"
        "normal_form bp'"
        using False by (auto simp: Let_def)
      from Cons.prems(1) ne have "\<exists>j\<in>set js. j \<noteq> i \<and> share_x (ds ! j) = xPos" by auto
      from Cons.IH [OF this s(2)] s(1) show ?thesis by simp
    qed
  qed
qed

lemma total_step_ok:
  assumes "\<not> clash ds i" "normal_form tot"
  shows "\<exists>tot'. total_loop ds (i # is) tot = total_loop ds is tot' \<and> normal_form tot'
           \<and> val tot' = val tot + real_of_int (share_y (ds ! i)) * basis_at ds i"
proof -
  have one: "normal_form \<lparr>num = 1, den = 1\<rparr>" by (simp add: normal_form_def)
  from assms(1) have "\<forall>j\<in>set [0..<length ds]. j \<noteq> i \<longrightarrow> share_x (ds ! j) \<noteq> share_x (ds ! i)"
    by (auto simp: clash_def)
  from basis_loop_ok [OF this one] obtain bp where
    bp: "basis_loop ds (share_x (ds ! i)) i [0..<length ds] \<lparr>num = 1, den = 1\<rparr> = Inr bp"
      "normal_form bp" "val bp = basis_at ds i"
    by (auto simp: basis_at_def val_def)
  have y: "normal_form \<lparr>num = share_y (ds ! i), den = 1\<rparr>" by (simp add: normal_form_def)
  from Rational_mul_ok [of "\<lparr>num = share_y (ds ! i), den = 1\<rparr>" bp] bp(2) obtain t where
    t: "Rational_mul \<lparr>num = share_y (ds ! i), den = 1\<rparr> bp = Inr t" "normal_form t"
      "val t = real_of_int (share_y (ds ! i)) * val bp"
    using normal_form_den by (auto simp: val_def)
  from Rational_add_ok [of tot t] assms(2) t(2) obtain tot' where
    a: "Rational_add tot t = Inr tot'" "normal_form tot'" "val tot' = val tot + val t"
    using normal_form_den by blast
  show ?thesis
    using bp t a by (intro exI [of _ tot']) (simp add: Rational_fromBigInt_def Rational_int Let_def)
qed

lemma total_step_err:
  assumes "clash ds i"
  shows "total_loop ds (i # is) tot = Inl Divide_by_zero"
proof -
  have one: "normal_form \<lparr>num = 1, den = 1\<rparr>" by (simp add: normal_form_def)
  from assms have "\<exists>j\<in>set [0..<length ds]. j \<noteq> i \<and> share_x (ds ! j) = share_x (ds ! i)"
    by (auto simp: clash_def)
  from basis_loop_err [OF this one] show ?thesis
    by (simp add: Rational_fromBigInt_def Rational_int Let_def)
qed

lemma total_loop_ok:
  assumes "\<forall>i\<in>set is. \<not> clash ds i" "normal_form tot"
  shows "\<exists>r. total_loop ds is tot = Inr r \<and> normal_form r
           \<and> val r = val tot + sum_list (map (\<lambda>i. real_of_int (share_y (ds ! i)) * basis_at ds i) is)"
  using assms
proof (induction "is" arbitrary: tot)
  case Nil
  then show ?case by simp
next
  case (Cons i "is")
  from Cons.prems have "\<not> clash ds i" by simp
  from total_step_ok [OF this Cons.prems(2), of "is"] obtain tot' where
    s: "total_loop ds (i # is) tot = total_loop ds is tot'" "normal_form tot'"
      "val tot' = val tot + real_of_int (share_y (ds ! i)) * basis_at ds i" by blast
  from Cons.IH [OF _ s(2)] Cons.prems(1) obtain r where
    "total_loop ds is tot' = Inr r" "normal_form r"
    "val r = val tot' + sum_list (map (\<lambda>i. real_of_int (share_y (ds ! i)) * basis_at ds i) is)"
    by auto
  with s show ?case by simp
qed

lemma total_loop_err:
  assumes "\<exists>i\<in>set is. clash ds i" "normal_form tot"
  shows "total_loop ds is tot = Inl Divide_by_zero"
  using assms
proof (induction "is" arbitrary: tot)
  case Nil
  then show ?case by simp
next
  case (Cons i "is")
  show ?case
  proof (cases "clash ds i")
    case True
    then show ?thesis by (rule total_step_err)
  next
    case False
    from total_step_ok [OF False Cons.prems(2), of "is"] obtain tot' where
      s: "total_loop ds (i # is) tot = total_loop ds is tot'" "normal_form tot'" by blast
    from Cons.prems(1) False have "\<exists>i\<in>set is. clash ds i" by auto
    from Cons.IH [OF this s(2)] s(1) show ?thesis by simp
  qed
qed

lemma distinct_no_clash: "distinct (map share_x ds) \<longleftrightarrow> (\<forall>i<length ds. \<not> clash ds i)"
  by (auto simp: clash_def distinct_conv_nth)

lemma reconstructAtOrigin_ok:
  assumes "distinct (map share_x ds)"
  shows "\<exists>r. reconstructAtOrigin ds = Inr r \<and> normal_form r \<and> val r = lagrange_at_0 ds"
proof -
  have z: "normal_form \<lparr>num = 0, den = 1\<rparr>" by (simp add: normal_form_def)
  from assms have "\<forall>i\<in>set [0..<length ds]. \<not> clash ds i" by (simp add: distinct_no_clash)
  from total_loop_ok [OF this z] show ?thesis
    by (simp add: reconstructAtOrigin_def Rational_zero_def Rational_int lagrange_at_0_def val_def)
qed

lemma reconstructAtOrigin_err:
  assumes "\<not> distinct (map share_x ds)"
  shows "reconstructAtOrigin ds = Inl Divide_by_zero"
proof -
  have z: "normal_form \<lparr>num = 0, den = 1\<rparr>" by (simp add: normal_form_def)
  from assms have "\<exists>i\<in>set [0..<length ds]. clash ds i" by (auto simp: distinct_no_clash)
  from total_loop_err [OF this z] show ?thesis
    by (simp add: reconstructAtOrigin_def Rational_zero_def Rational_int)
qed

lemma rpoly_of_int: "rpoly cs (real_of_int t) = real_of_int (poly_eval cs t)"
  by (induction cs) simp_all

lemma polyfun_le_const: "polyfun_le n (\<lambda>t. a)"
proof -
  have "\<forall>t::real. a = (\<Sum>i\<le>n. (if i = 0 then a else 0) * t ^ i)"
  proof
    fix t :: real
    have "(\<Sum>i\<le>n. (if i = 0 then a else 0) * t ^ i) = (\<Sum>i\<le>n. if i = 0 then a else 0)"
      by (rule sum.cong) auto
    then show "a = (\<Sum>i\<le>n. (if i = 0 then a else 0) * t ^ i)" by simp
  qed
  then show ?thesis unfolding polyfun_le_def
    by (intro exI [of _ "\<lambda>i. if i = 0 then a else 0"])
qed

lemma polyfun_le_scale:
  assumes "polyfun_le n f"
  shows "polyfun_le n (\<lambda>t. a * f t)"
proof -
  from assms obtain c where c: "\<And>t. f t = (\<Sum>i\<le>n. c i * t ^ i)"
    unfolding polyfun_le_def by blast
  have "\<forall>t. a * f t = (\<Sum>i\<le>n. (a * c i) * t ^ i)"
    by (simp add: c sum_distrib_left mult.assoc)
  then show ?thesis unfolding polyfun_le_def
    by (intro exI [of _ "\<lambda>i. a * c i"])
qed

lemma polyfun_le_add:
  assumes "polyfun_le n f" "polyfun_le n g"
  shows "polyfun_le n (\<lambda>t. f t + g t)"
proof -
  from assms obtain c d where c: "\<And>t. f t = (\<Sum>i\<le>n. c i * t ^ i)"
    and d: "\<And>t. g t = (\<Sum>i\<le>n. d i * t ^ i)"
    unfolding polyfun_le_def by blast
  have "\<forall>t. f t + g t = (\<Sum>i\<le>n. (c i + d i) * t ^ i)"
    by (simp add: c d sum.distrib distrib_right)
  then show ?thesis unfolding polyfun_le_def
    by (intro exI [of _ "\<lambda>i. c i + d i"])
qed

lemma polyfun_le_diff:
  assumes "polyfun_le n f" "polyfun_le n g"
  shows "polyfun_le n (\<lambda>t. f t - g t)"
  using polyfun_le_add [OF assms(1) polyfun_le_scale [OF assms(2), of "- 1"]] by simp

lemma polyfun_le_Suc:
  assumes "polyfun_le n f"
  shows "polyfun_le (Suc n) f"
proof -
  from assms obtain c where c: "\<And>t. f t = (\<Sum>i\<le>n. c i * t ^ i)"
    unfolding polyfun_le_def by blast
  have "\<forall>t. f t = (\<Sum>i\<le>Suc n. (if i \<le> n then c i else 0) * t ^ i)"
    by (simp add: c)
  then show ?thesis unfolding polyfun_le_def
    by (intro exI [of _ "\<lambda>i. if i \<le> n then c i else 0"])
qed

lemma polyfun_le_shift:
  assumes "polyfun_le n f"
  shows "polyfun_le (Suc n) (\<lambda>t. t * f t)"
proof -
  from assms obtain c where c: "\<And>t. f t = (\<Sum>i\<le>n. c i * t ^ i)"
    unfolding polyfun_le_def by blast
  have "\<forall>t. t * f t = (\<Sum>i\<le>Suc n. (case i of 0 \<Rightarrow> 0 | Suc m \<Rightarrow> c m) * t ^ i)"
  proof
    fix t
    have "(\<Sum>i\<le>Suc n. (case i of 0 \<Rightarrow> 0 | Suc m \<Rightarrow> c m) * t ^ i) = (\<Sum>i\<le>n. c i * t ^ Suc i)"
      by (subst sum.atMost_Suc_shift) simp
    also have "\<dots> = t * f t"
      by (simp add: c sum_distrib_left mult_ac)
    finally show "t * f t = (\<Sum>i\<le>Suc n. (case i of 0 \<Rightarrow> 0 | Suc m \<Rightarrow> c m) * t ^ i)" by simp
  qed
  then show ?thesis unfolding polyfun_le_def
    by (intro exI [of _ "\<lambda>i. case i of 0 \<Rightarrow> 0 | Suc m \<Rightarrow> c m"])
qed

lemma polyfun_le_factor:
  assumes "polyfun_le n f"
  shows "polyfun_le (Suc n) (\<lambda>t. (t - a) / b * f t)"
proof -
  have "polyfun_le (Suc n) (\<lambda>t. t * f t - a * f t)"
    by (intro polyfun_le_diff polyfun_le_shift polyfun_le_Suc polyfun_le_scale assms)
  then have "polyfun_le (Suc n) (\<lambda>t. (1 / b) * (t * f t - a * f t))"
    by (rule polyfun_le_scale)
  moreover have "(\<lambda>t. (1 / b) * (t * f t - a * f t)) = (\<lambda>t. (t - a) / b * f t)"
    by (rule ext) (simp add: algebra_simps diff_divide_distrib)
  ultimately show ?thesis by simp
qed

lemma polyfun_le_mono:
  assumes "polyfun_le m f" "m \<le> n"
  shows "polyfun_le n f"
  using assms(2) assms(1) by (induction rule: dec_induct) (auto intro: polyfun_le_Suc)

lemma polyfun_le_prod_list:
  "polyfun_le (length js) (\<lambda>t. prod_list (map (\<lambda>j. (t - a j) / b j) js))"
proof (induction js)
  case Nil
  show ?case using polyfun_le_const [of 0 1] by simp
next
  case (Cons j js)
  from polyfun_le_factor [OF Cons, of "a j" "b j"] show ?case by simp
qed

lemma polyfun_le_sum_list:
  assumes "\<And>i. i \<in> set is \<Longrightarrow> polyfun_le n (g i)"
  shows "polyfun_le n (\<lambda>t. sum_list (map (\<lambda>i. g i t) is))"
  using assms
proof (induction "is")
  case Nil
  show ?case using polyfun_le_const [of n 0] by simp
next
  case (Cons i "is")
  then show ?case by (simp add: polyfun_le_add)
qed

lemma polyfun_le_rpoly: "length cs \<le> Suc n \<Longrightarrow> polyfun_le n (rpoly cs)"
proof (induction cs arbitrary: n)
  case Nil
  have "rpoly [] = (\<lambda>t. 0)" by (rule ext) simp
  then show ?case using polyfun_le_const [of n 0] by simp
next
  case (Cons c cs)
  have e: "rpoly (c # cs) = (\<lambda>t. real_of_int c + t * rpoly cs t)" by (rule ext) simp
  show ?case
  proof (cases n)
    case 0
    with Cons.prems have "cs = []" by simp
    then have "rpoly (c # cs) = (\<lambda>t. real_of_int c)" by (intro ext) simp
    then show ?thesis using polyfun_le_const [of n "real_of_int c"] by simp
  next
    case (Suc m)
    with Cons.prems have "length cs \<le> Suc m" by simp
    then have "polyfun_le m (rpoly cs)" by (rule Cons.IH)
    then have "polyfun_le (Suc m) (\<lambda>t. t * rpoly cs t)" by (rule polyfun_le_shift)
    with polyfun_le_const [of "Suc m" "real_of_int c"]
    have "polyfun_le (Suc m) (\<lambda>t. real_of_int c + t * rpoly cs t)" by (rule polyfun_le_add)
    with e Suc show ?thesis by simp
  qed
qed

lemma polyfun_le_roots:
  assumes "polyfun_le m f" "finite S" "m < card S" "\<forall>s\<in>S. f s = 0"
  shows "f t = 0"
proof -
  from assms(1) obtain c where c: "\<And>t. f t = (\<Sum>i\<le>m. c i * t ^ i)"
    unfolding polyfun_le_def by blast
  have "\<forall>k\<le>m. c k = 0"
  proof (rule ccontr)
    assume "\<not> (\<forall>k\<le>m. c k = 0)"
    then obtain k where k: "k \<le> m" "c k \<noteq> 0" by blast
    from polyfun_rootbound [of c k m] k
    have fin: "finite {z. (\<Sum>i\<le>m. c i * z ^ i) = 0}"
      and le: "card {z. (\<Sum>i\<le>m. c i * z ^ i) = 0} \<le> m" by simp_all
    have "S \<subseteq> {z. (\<Sum>i\<le>m. c i * z ^ i) = 0}" using assms(4) c by auto
    then have "card S \<le> card {z. (\<Sum>i\<le>m. c i * z ^ i) = 0}" using fin by (rule card_mono [rotated])
    with le assms(3) show False by simp
  qed
  then show ?thesis by (simp add: c)
qed

lemma basis_at_lbasis: "basis_at ds i = lbasis ds i 0"
  by (simp add: basis_at_def lbasis_def basis_factor_def [abs_def] xr_def)

lemma lagrange_at_0_linterp: "lagrange_at_0 ds = linterp ds 0"
  by (simp add: lagrange_at_0_def linterp_def basis_at_lbasis)

lemma length_filter_neq:
  assumes "i < n"
  shows "length (filter (\<lambda>j. j \<noteq> i) [0..<n]) = n - 1"
proof -
  have "filter (\<lambda>j. j \<noteq> i) [0..<n] = removeAll i [0..<n]"
    by (simp add: removeAll_filter_not_eq) (metis)
  also have "\<dots> = remove1 i [0..<n]" by (simp add: distinct_remove1_removeAll)
  finally show ?thesis using assms by (simp add: length_remove1)
qed

lemma polyfun_le_lbasis:
  assumes "i < length ds"
  shows "polyfun_le (length ds - 1) (lbasis ds i)"
proof -
  have "polyfun_le (length (filter (\<lambda>j. j \<noteq> i) [0..<length ds]))
     (\<lambda>t. prod_list (map (\<lambda>j. (t - xr ds j) / (xr ds i - xr ds j)) (filter (\<lambda>j. j \<noteq> i) [0..<length ds])))"
    by (rule polyfun_le_prod_list)
  moreover have "lbasis ds i = (\<lambda>t. prod_list (map (\<lambda>j. (t - xr ds j) / (xr ds i - xr ds j)) (filter (\<lambda>j. j \<noteq> i) [0..<length ds])))"
    by (rule ext) (simp add: lbasis_def)
  ultimately show ?thesis using assms by (simp add: length_filter_neq)
qed

lemma polyfun_le_linterp: "polyfun_le (length ds - 1) (linterp ds)"
proof -
  have "polyfun_le (length ds - 1)
     (\<lambda>t. sum_list (map (\<lambda>i. real_of_int (share_y (ds ! i)) * lbasis ds i t) [0..<length ds]))"
  proof (rule polyfun_le_sum_list)
    fix i assume "i \<in> set [0..<length ds]"
    then have "i < length ds" by simp
    then have "polyfun_le (length ds - 1) (lbasis ds i)" by (rule polyfun_le_lbasis)
    then show "polyfun_le (length ds - 1) (\<lambda>t. real_of_int (share_y (ds ! i)) * lbasis ds i t)"
      by (rule polyfun_le_scale)
  qed
  moreover have "linterp ds = (\<lambda>t. sum_list (map (\<lambda>i. real_of_int (share_y (ds ! i)) * lbasis ds i t) [0..<length ds]))"
    by (rule ext) (simp add: linterp_def)
  ultimately show ?thesis by simp
qed

lemma xr_inj:
  assumes "distinct (map share_x ds)" "i < length ds" "j < length ds"
  shows "xr ds i = xr ds j \<longleftrightarrow> i = j"
  using assms by (auto simp: xr_def distinct_conv_nth)

lemma prod_list_ones: "(\<And>v. v \<in> set vs \<Longrightarrow> v = (1::real)) \<Longrightarrow> prod_list vs = 1"
  by (induction vs) simp_all

lemma lbasis_at_node:
  assumes "distinct (map share_x ds)" "i < length ds" "m < length ds"
  shows "lbasis ds i (xr ds m) = (if i = m then 1 else 0)"
proof (cases "i = m")
  case True
  have "prod_list (map (\<lambda>j. (xr ds m - xr ds j) / (xr ds m - xr ds j)) (filter (\<lambda>j. j \<noteq> m) [0..<length ds])) = 1"
    by (rule prod_list_ones) (use assms xr_inj in auto)
  with True show ?thesis by (simp add: lbasis_def)
next
  case False
  with assms have "m \<in> set (filter (\<lambda>j. j \<noteq> i) [0..<length ds])" by simp
  then have "0 \<in> (\<lambda>j. (xr ds m - xr ds j) / (xr ds i - xr ds j)) ` set (filter (\<lambda>j. j \<noteq> i) [0..<length ds])"
    by (rule rev_image_eqI) simp
  then have "0 \<in> set (map (\<lambda>j. (xr ds m - xr ds j) / (xr ds i - xr ds j)) (filter (\<lambda>j. j \<noteq> i) [0..<length ds]))"
    by (simp only: set_map)
  then have "prod_list (map (\<lambda>j. (xr ds m - xr ds j) / (xr ds i - xr ds j)) (filter (\<lambda>j. j \<noteq> i) [0..<length ds])) = 0"
    by (simp only: prod_list_zero_iff)
  with False show ?thesis by (simp add: lbasis_def)
qed

lemma linterp_at_node:
  assumes "distinct (map share_x ds)" "m < length ds"
  shows "linterp ds (xr ds m) = real_of_int (share_y (ds ! m))"
proof -
  have "linterp ds (xr ds m) =
      sum_list (map (\<lambda>i. if i = m then real_of_int (share_y (ds ! i)) else 0) [0..<length ds])"
    unfolding linterp_def
    by (rule arg_cong [where f = sum_list], rule map_cong) (use assms lbasis_at_node in auto)
  also have "\<dots> = (\<Sum>i\<in>{0..<length ds}. if i = m then real_of_int (share_y (ds ! i)) else 0)"
    by (simp add: interv_sum_list_conv_sum_set_nat)
  also have "\<dots> = real_of_int (share_y (ds ! m))"
    using assms(2) by (simp add: sum.delta)
  finally show ?thesis .
qed

lemma linterp_poly:
  assumes "distinct (map share_x ds)" "length cs \<le> length ds"
    "\<forall>p\<in>set ds. share_y p = poly_eval cs (share_x p)"
  shows "linterp ds t = rpoly cs t"
proof (cases "length ds = 0")
  case True
  with assms(2) show ?thesis by (simp add: linterp_def)
next
  case False
  let ?n = "length ds"
  let ?S = "(\<lambda>p. real_of_int (share_x p)) ` set ds"
  let ?D = "\<lambda>t. rpoly cs t - linterp ds t"
  from False assms(2) have "length cs \<le> Suc (?n - 1)" by simp
  then have "polyfun_le (?n - 1) (rpoly cs)" by (rule polyfun_le_rpoly)
  then have pf: "polyfun_le (?n - 1) ?D" using polyfun_le_linterp by (rule polyfun_le_diff)
  have "card ?S = card (real_of_int ` set (map share_x ds))" by (simp add: image_image)
  also have "\<dots> = card (set (map share_x ds))"
    by (rule card_image) (simp add: inj_on_def)
  also have "\<dots> = ?n" using distinct_card [OF assms(1)] by simp
  finally have cd: "?n - 1 < card ?S" using False by simp
  have roots: "\<forall>s\<in>?S. ?D s = 0"
  proof
    fix s assume "s \<in> ?S"
    then obtain m where m: "m < ?n" "s = xr ds m"
      by (auto simp: in_set_conv_nth xr_def)
    from assms(3) m(1) have "share_y (ds ! m) = poly_eval cs (share_x (ds ! m))" by simp
    then have "rpoly cs (xr ds m) = real_of_int (share_y (ds ! m))"
      by (simp add: xr_def rpoly_of_int)
    with linterp_at_node [OF assms(1) m(1)] m(2) show "?D s = 0" by simp
  qed
  have "?D t = 0"
    by (rule polyfun_le_roots [OF pf _ cd roots]) simp
  then show ?thesis by simp
qed

lemma poly_eval_0: "poly_eval cs 0 = (case cs of [] \<Rightarrow> 0 | c # _ \<Rightarrow> c)"
  by (cases cs) simp_all

text \<open>
  C2: for points with pairwise distinct x-coordinates that lie on a polynomial with
  integer coefficients \<open>cs\<close> (lowest first) of degree below the number of points,
  \<^verbatim>\<open>reconstructAtOrigin\<close> returns the polynomial's value at 0, as the rational with
  denominator 1, whatever the size of the coordinates.
\<close>

theorem interpolation_exact:
  assumes "distinct (map share_x ds)" "length cs \<le> length ds"
    "\<forall>p\<in>set ds. share_y p = poly_eval cs (share_x p)"
  shows "reconstructAtOrigin ds = Inr \<lparr>num = poly_eval cs 0, den = 1\<rparr>"
proof -
  from reconstructAtOrigin_ok [OF assms(1)] obtain r where
    r: "reconstructAtOrigin ds = Inr r" "normal_form r" "val r = lagrange_at_0 ds" by blast
  have "val r = rpoly cs 0"
    using r(3) linterp_poly [OF assms, of 0] by (simp add: lagrange_at_0_linterp)
  also have "\<dots> = real_of_int (poly_eval cs 0)"
    using rpoly_of_int [of cs 0] by simp
  finally have "val r = val \<lparr>num = poly_eval cs 0, den = 1\<rparr>" by (simp add: val_def)
  moreover have "normal_form \<lparr>num = poly_eval cs 0, den = 1\<rparr>" by (simp add: normal_form_def)
  ultimately have "r = \<lparr>num = poly_eval cs 0, den = 1\<rparr>"
    using r(2) by (rule_tac normal_form_val_eq)
  with r(1) show ?thesis by simp
qed

theorem interpolation_exact_witness:
  "distinct (map share_x [\<lparr>share_x = 1, share_y = 3\<rparr>, \<lparr>share_x = 2, share_y = 5\<rparr>, \<lparr>share_x = 3, share_y = 7\<rparr>])
   \<and> reconstructAtOrigin [\<lparr>share_x = 1, share_y = 3\<rparr>, \<lparr>share_x = 2, share_y = 5\<rparr>, \<lparr>share_x = 3, share_y = 7\<rparr>]
       = Inr \<lparr>num = 1, den = 1\<rparr>"
  using interpolation_exact [of "[\<lparr>share_x = 1, share_y = 3\<rparr>, \<lparr>share_x = 2, share_y = 5\<rparr>, \<lparr>share_x = 3, share_y = 7\<rparr>]" "[1, 2]"]
  by simp

section \<open>The two interpolation engines\<close>

text \<open>
  C7: a zero denominator makes the constructor fail, two equal x-coordinates in a
  subset make \<^verbatim>\<open>reconstructAtOrigin\<close> fail, both with an error of the division-by-zero
  kind, and pairwise distinct x-coordinates make it return a value.
\<close>

theorem division_by_zero_errors:
  "Rational n 0 = Inl Denominator_zero \<and> DivisionByZeroError Denominator_zero
   \<and> (\<not> distinct (map share_x ds) \<longrightarrow>
        reconstructAtOrigin ds = Inl Divide_by_zero \<and> DivisionByZeroError Divide_by_zero)
   \<and> (distinct (map share_x ds) \<longrightarrow> (\<exists>r. reconstructAtOrigin ds = Inr r))"
  using reconstructAtOrigin_ok [of ds] reconstructAtOrigin_err [of ds]
  by (auto simp: Rational_zero_den DivisionByZeroError_def)

theorem division_by_zero_errors_witness:
  "\<not> distinct (map share_x [\<lparr>share_x = 1, share_y = 1\<rparr>, \<lparr>share_x = 1, share_y = 2\<rparr>])
   \<and> reconstructAtOrigin [\<lparr>share_x = 1, share_y = 1\<rparr>, \<lparr>share_x = 1, share_y = 2\<rparr>]
       = Inl Divide_by_zero
   \<and> distinct (map share_x [\<lparr>share_x = 1, share_y = 1\<rparr>, \<lparr>share_x = 3, share_y = 2\<rparr>])
   \<and> (\<exists>r. reconstructAtOrigin [\<lparr>share_x = 1, share_y = 1\<rparr>, \<lparr>share_x = 3, share_y = 2\<rparr>] = Inr r)"
  using division_by_zero_errors [of 0 "[\<lparr>share_x = 1, share_y = 1\<rparr>, \<lparr>share_x = 1, share_y = 2\<rparr>]"]
    division_by_zero_errors [of 0 "[\<lparr>share_x = 1, share_y = 1\<rparr>, \<lparr>share_x = 3, share_y = 2\<rparr>]"]
  by simp

lemma Fraction_Rational:
  assumes "d \<noteq> 0"
  shows "\<exists>f. Fraction n d = Inr f \<and> Rational n d = Inr (rat_of f)"
proof -
  have g: "gcd n d \<noteq> 0" "gcd (- n) (- d) \<noteq> 0" using assms by simp_all
  show ?thesis
    using assms g
    by (cases "d < 0")
      (simp_all add: Fraction_def Rational_def bigGcd_eq gcdBigInt_eq bigint_div_def rat_of_def Let_def)
qed

lemma Fraction_int: "Fraction n 1 = Inr \<lparr>frac_n = n, frac_d = 1\<rparr>"
proof -
  from Fraction_Rational [of 1 n] obtain f where
    f: "Fraction n 1 = Inr f" "Rational n 1 = Inr (rat_of f)" by auto
  from f(2) have "rat_of f = \<lparr>num = n, den = 1\<rparr>" by (simp add: Rational_int)
  then have "f = \<lparr>frac_n = n, frac_d = 1\<rparr>" by (simp add: rat_of_def)
  with f(1) show ?thesis by simp
qed

lemma Fraction_mul_sim:
  assumes "normal_form (rat_of a)" "normal_form (rat_of b)"
  shows "\<exists>f. Fraction_mul a b = Inr f \<and> Rational_mul (rat_of a) (rat_of b) = Inr (rat_of f)
           \<and> normal_form (rat_of f)"
proof -
  from assms have "frac_d a * frac_d b \<noteq> 0"
    by (auto simp: normal_form_def rat_of_def)
  from Fraction_Rational [OF this, of "frac_n a * frac_n b"] obtain f where
    f: "Fraction (frac_n a * frac_n b) (frac_d a * frac_d b) = Inr f"
       "Rational (frac_n a * frac_n b) (frac_d a * frac_d b) = Inr (rat_of f)" by blast
  from f(2) have "normal_form (rat_of f)" by (rule Rational_normal)
  with f show ?thesis by (simp add: Fraction_mul_def Rational_mul_def rat_of_def)
qed

lemma Fraction_add_sim:
  assumes "normal_form (rat_of a)" "normal_form (rat_of b)"
  shows "\<exists>f. Fraction_add a b = Inr f \<and> Rational_add (rat_of a) (rat_of b) = Inr (rat_of f)
           \<and> normal_form (rat_of f)"
proof -
  from assms have "frac_d a * frac_d b \<noteq> 0"
    by (auto simp: normal_form_def rat_of_def)
  from Fraction_Rational [OF this, of "frac_n a * frac_d b + frac_n b * frac_d a"] obtain f where
    f: "Fraction (frac_n a * frac_d b + frac_n b * frac_d a) (frac_d a * frac_d b) = Inr f"
       "Rational (frac_n a * frac_d b + frac_n b * frac_d a) (frac_d a * frac_d b) = Inr (rat_of f)"
    by blast
  from f(2) have "normal_form (rat_of f)" by (rule Rational_normal)
  with f show ?thesis by (simp add: Fraction_add_def Rational_add_def rat_of_def)
qed

lemma Li_loop_sim:
  assumes "\<forall>j\<in>set js. j \<noteq> i \<longrightarrow> fst (pts ! j) \<noteq> xi" "\<forall>j\<in>set js. j < length pts"
    "normal_form (rat_of Li)"
  shows "\<exists>f. Li_loop pts xi i js Li = Inr f
           \<and> basis_loop (map share_of pts) xi i js (rat_of Li) = Inr (rat_of f)
           \<and> normal_form (rat_of f)"
  using assms
proof (induction js arbitrary: Li)
  case Nil
  then show ?case by simp
next
  case (Cons j js)
  show ?case
  proof (cases "j = i")
    case True
    with Cons show ?thesis by simp
  next
    case False
    let ?xj = "fst (pts ! j)"
    from Cons.prems False have ne: "xi - ?xj \<noteq> 0" and jl: "j < length pts" by auto
    from jl have xo: "share_x (map share_of pts ! j) = ?xj" by (simp add: share_of_def)
    from Fraction_Rational [OF ne, of "- ?xj"] obtain f1 where
      f1: "Fraction (- ?xj) (xi - ?xj) = Inr f1" "Rational (- ?xj) (xi - ?xj) = Inr (rat_of f1)"
      by blast
    from f1(2) have n1: "normal_form (rat_of f1)" by (rule Rational_normal)
    from Fraction_mul_sim [OF Cons.prems(3) n1] obtain f2 where
      f2: "Fraction_mul Li f1 = Inr f2" "Rational_mul (rat_of Li) (rat_of f1) = Inr (rat_of f2)"
        "normal_form (rat_of f2)" by blast
    have d: "Rational_div \<lparr>num = - ?xj, den = 1\<rparr> \<lparr>num = xi - ?xj, den = 1\<rparr> = Inr (rat_of f1)"
      using ne f1(2) by (simp add: Rational_div_def)
    from Cons.IH [OF _ _ f2(3)] Cons.prems obtain f where
      f: "Li_loop pts xi i js f2 = Inr f"
        "basis_loop (map share_of pts) xi i js (rat_of f2) = Inr (rat_of f)"
        "normal_form (rat_of f)" by auto
    show ?thesis
      using False f1 f2 d f xo by (intro exI [of _ f]) (simp add: Rational_int Let_def)
  qed
qed

lemma res_loop_sim:
  assumes "\<forall>i\<in>set is. i < length pts" "distinct (map fst pts)" "normal_form (rat_of res)"
  shows "\<exists>f. res_loop pts is res = Inr f
           \<and> total_loop (map share_of pts) is (rat_of res) = Inr (rat_of f)
           \<and> normal_form (rat_of f)"
  using assms
proof (induction "is" arbitrary: res)
  case Nil
  then show ?case by simp
next
  case (Cons i "is")
  let ?xi = "fst (pts ! i)"
  let ?yi = "snd (pts ! i)"
  from Cons.prems have il: "i < length pts" by simp
  then have sh: "share_x (map share_of pts ! i) = ?xi" "share_y (map share_of pts ! i) = ?yi"
    by (simp_all add: share_of_def)
  have one: "normal_form (rat_of \<lparr>frac_n = 1, frac_d = 1\<rparr>)"
    and ny: "normal_form (rat_of \<lparr>frac_n = ?yi, frac_d = 1\<rparr>)"
    by (simp_all add: normal_form_def rat_of_def)
  have "\<forall>j\<in>set [0..<length pts]. j \<noteq> i \<longrightarrow> fst (pts ! j) \<noteq> ?xi"
    using Cons.prems(2) il by (auto simp: distinct_conv_nth)
  from Li_loop_sim [OF this _ one] obtain l where
    l: "Li_loop pts ?xi i [0..<length pts] \<lparr>frac_n = 1, frac_d = 1\<rparr> = Inr l"
      "basis_loop (map share_of pts) ?xi i [0..<length pts] (rat_of \<lparr>frac_n = 1, frac_d = 1\<rparr>)
         = Inr (rat_of l)"
      "normal_form (rat_of l)" by auto
  from Fraction_mul_sim [OF ny l(3)] obtain t where
    t: "Fraction_mul \<lparr>frac_n = ?yi, frac_d = 1\<rparr> l = Inr t"
      "Rational_mul (rat_of \<lparr>frac_n = ?yi, frac_d = 1\<rparr>) (rat_of l) = Inr (rat_of t)"
      "normal_form (rat_of t)" by blast
  from Fraction_add_sim [OF Cons.prems(3) t(3)] obtain res' where
    a: "Fraction_add res t = Inr res'" "Rational_add (rat_of res) (rat_of t) = Inr (rat_of res')"
      "normal_form (rat_of res')" by blast
  from Cons.IH [OF _ Cons.prems(2) a(3)] Cons.prems(1) obtain f where
    f: "res_loop pts is res' = Inr f"
      "total_loop (map share_of pts) is (rat_of res') = Inr (rat_of f)"
      "normal_form (rat_of f)" by auto
  have r1: "rat_of \<lparr>frac_n = 1, frac_d = 1\<rparr> = \<lparr>num = 1, den = 1\<rparr>"
    and ry: "rat_of \<lparr>frac_n = ?yi, frac_d = 1\<rparr> = \<lparr>num = ?yi, den = 1\<rparr>"
    by (simp_all add: rat_of_def)
  show ?case
    using l t a f sh r1 ry
    by (intro exI [of _ f])
      (simp add: Fraction_fromBigInt_def Rational_fromBigInt_def Fraction_int Rational_int Let_def)
qed

text \<open>
  C10: on points with pairwise distinct x-coordinates (the empty list included) the
  Fraction engine of the first program and the Rational engine of the second return
  the same reduced fraction: equal numerators and equal denominators.
\<close>

theorem engines_agree:
  assumes "distinct (map fst pts)"
  shows "\<exists>f r. lagrangeAtZeroFraction pts = Inr f
           \<and> reconstructAtOrigin (map share_of pts) = Inr r
           \<and> frac_n f = num r \<and> frac_d f = den r"
proof -
  have z: "normal_form (rat_of \<lparr>frac_n = 0, frac_d = 1\<rparr>)"
    by (simp add: normal_form_def rat_of_def)
  from res_loop_sim [OF _ assms z, of "[0..<length pts]"] obtain f where
    f: "res_loop pts [0..<length pts] \<lparr>frac_n = 0, frac_d = 1\<rparr> = Inr f"
      "total_loop (map share_of pts) [0..<length pts] (rat_of \<lparr>frac_n = 0, frac_d = 1\<rparr>)
         = Inr (rat_of f)" by auto
  have "rat_of \<lparr>frac_n = 0, frac_d = 1\<rparr> = \<lparr>num = 0, den = 1\<rparr>" by (simp add: rat_of_def)
  with f have "lagrangeAtZeroFraction pts = Inr f"
    "reconstructAtOrigin (map share_of pts) = Inr (rat_of f)"
    by (simp_all add: lagrangeAtZeroFraction_def reconstructAtOrigin_def Rational_zero_def
        Fraction_int Rational_int)
  then show ?thesis by (intro exI [of _ f] exI [of _ "rat_of f"]) (simp add: rat_of_def)
qed

theorem engines_agree_witness:
  "distinct (map fst [(1 :: int, 1 :: int), (3, 2)])
   \<and> lagrangeAtZeroFraction [(1, 1), (3, 2)] = Inr \<lparr>frac_n = 1, frac_d = 2\<rparr>
   \<and> reconstructAtOrigin (map share_of [(1, 1), (3, 2)]) = Inr \<lparr>num = 1, den = 2\<rparr>"
proof -
  have a: "lagrangeAtZeroFraction [(1, 1), (3, 2)] = Inr \<lparr>frac_n = 1, frac_d = 2\<rparr>"
    by code_simp
  from engines_agree [of "[(1, 1), (3, 2)]"] a show ?thesis by auto
qed

section \<open>chooseCombos: lemmas\<close>

lemma combos_short: "length xs < k \<Longrightarrow> combos k xs = []"
  by (induction k xs rule: combos.induct) simp_all

lemma length_combos: "length (combos k xs) = length xs choose k"
  by (induction k xs rule: combos.induct) simp_all

lemma combos_length: "c \<in> set (combos k xs) \<Longrightarrow> length c = k"
  by (induction k xs arbitrary: c rule: combos.induct) auto

lemma combos_subset: "c \<in> set (combos k xs) \<Longrightarrow> set c \<subseteq> set xs"
proof (induction k xs arbitrary: c rule: combos.induct)
  case (3 k x xs)
  from "3.prems" consider c' where "c = x # c'" "c' \<in> set (combos k xs)"
    | "c \<in> set (combos (Suc k) xs)" by auto
  then show ?case
  proof cases
    case 1
    with "3.IH"(1) [of c'] show ?thesis by auto
  next
    case 2
    with "3.IH"(2) [of c] show ?thesis by auto
  qed
qed simp_all

lemma combos_sorted:
  "sorted_wrt (<) xs \<Longrightarrow> c \<in> set (combos k xs) \<Longrightarrow> sorted_wrt (<) (c :: nat list)"
proof (induction k xs arbitrary: c rule: combos.induct)
  case (3 k x xs)
  from "3.prems"(2) consider c' where "c = x # c'" "c' \<in> set (combos k xs)"
    | "c \<in> set (combos (Suc k) xs)" by auto
  then show ?case
  proof cases
    case 1
    with "3.prems"(1) "3.IH"(1) have "sorted_wrt (<) c'" by simp
    moreover from 1 have "set c' \<subseteq> set xs" by (simp add: combos_subset)
    ultimately show ?thesis using 1 "3.prems"(1) by auto
  next
    case 2
    with "3.prems"(1) "3.IH"(2) show ?thesis by simp
  qed
qed simp_all

lemma combos_complete:
  "sorted_wrt (<) xs \<Longrightarrow> sorted_wrt (<) (c :: nat list) \<Longrightarrow> set c \<subseteq> set xs
     \<Longrightarrow> length c = k \<Longrightarrow> c \<in> set (combos k xs)"
proof (induction k xs arbitrary: c rule: combos.induct)
  case (1 xs)
  then show ?case by simp
next
  case (2 k)
  then show ?case by (cases c) simp_all
next
  case (3 k x xs)
  from "3.prems"(4) obtain y c' where c: "c = y # c'" "length c' = k" by (cases c) auto
  from "3.prems"(1) have sx: "sorted_wrt (<) xs" and lx: "\<forall>z\<in>set xs. x < z" by simp_all
  from "3.prems"(2) c have sc: "sorted_wrt (<) c'" and lc: "\<forall>z\<in>set c'. y < z" by simp_all
  show ?case
  proof (cases "y = x")
    case True
    have "set c' \<subseteq> set xs"
    proof
      fix z assume z: "z \<in> set c'"
      with lc True have "x < z" by simp
      moreover from z c "3.prems"(3) have "z \<in> set (x # xs)" by auto
      ultimately show "z \<in> set xs" by auto
    qed
    with "3.IH"(1) [OF sx sc _ c(2)] have "c' \<in> set (combos k xs)" by simp
    with True c show ?thesis by simp
  next
    case False
    with c "3.prems"(3) have yx: "y \<in> set xs" by auto
    with lx have "x < y" by simp
    have "set c \<subseteq> set xs"
    proof
      fix z assume z: "z \<in> set c"
      with c lc \<open>x < y\<close> have "x < z" by auto
      moreover from z "3.prems"(3) have "z \<in> set (x # xs)" by auto
      ultimately show "z \<in> set xs" by auto
    qed
    with "3.IH"(2) [OF sx "3.prems"(2) _ "3.prems"(4)] have "c \<in> set (combos (Suc k) xs)" by simp
    then show ?thesis by simp
  qed
qed

lemma distinct_combos: "distinct xs \<Longrightarrow> distinct (combos k xs)"
proof (induction k xs rule: combos.induct)
  case (3 k x xs)
  then have d1: "distinct (combos k xs)" and d2: "distinct (combos (Suc k) xs)"
    and nx: "x \<notin> set xs" by simp_all
  have "distinct (map ((#) x) (combos k xs))" using d1 by (simp add: distinct_map)
  moreover have "set (map ((#) x) (combos k xs)) \<inter> set (combos (Suc k) xs) = {}"
  proof (rule ccontr)
    assume "set (map ((#) x) (combos k xs)) \<inter> set (combos (Suc k) xs) \<noteq> {}"
    then obtain c' where "x # c' \<in> set (combos (Suc k) xs)" by auto
    then have "x \<in> set xs" using combos_subset by fastforce
    with nx show False by simp
  qed
  ultimately show ?case using d2 by simp
qed simp_all

lemma backtrack_Loop:
  assumes "int (length chosen) < k" "i \<le> length arr"
  shows "backtrack arr k (Loop i chosen) result =
           Some (result @ map (\<lambda>c. chosen @ map Some c) (combos (nat k - length chosen) (drop i arr)))"
  using assms
proof (induction "nat k - length chosen" arbitrary: chosen i result)
  case 0
  then show ?case by simp
next
  case (Suc m)
  from Suc.hyps(2) [symmetric] have mk: "nat k - length chosen = Suc m" .
  show ?case using Suc.prems(2)
  proof (induction "length arr - i" arbitrary: i result rule: less_induct)
    case less
    show ?case
    proof (cases "int i \<le> int (length arr) - (k - int (length chosen))")
      case False
      with mk have "length (drop i arr) < Suc m" by simp
      then have "combos (Suc m) (drop i arr) = []" by (rule combos_short)
      with False mk show ?thesis by (subst backtrack.simps) simp
    next
      case True
      with mk have il: "i < length arr" by simp
      let ?a = "arr ! i"
      let ?chosen' = "chosen @ [Some ?a]"
      from il have dr: "drop i arr = ?a # drop (Suc i) arr" by (simp add: Cons_nth_drop_Suc)
      have call: "backtrack arr k (Call (Suc i) ?chosen') result =
          Some (result @ map (\<lambda>c. chosen @ map Some c) (map ((#) ?a) (combos m (drop (Suc i) arr))))"
      proof (cases "int (length ?chosen') = k")
        case True
        with mk have "m = 0" by simp
        with True show ?thesis by (subst backtrack.simps) simp
      next
        case False
        with mk have m': "m = nat k - length ?chosen'" and lt: "int (length ?chosen') < k"
          by simp_all
        from mk have m'': "nat k - Suc (length chosen) = m" by simp
        from il have "Suc i \<le> length arr" by simp
        from Suc.hyps(1) [OF m' lt this, of result] False show ?thesis
          by (subst backtrack.simps) (simp add: comp_def m'')
      qed
      from il have "length arr - Suc i < length arr - i" "Suc i \<le> length arr" by simp_all
      note rest = less.hyps [OF this]
      show ?thesis
        by (subst backtrack.simps) (simp add: True js_get_def il call rest mk dr)
    qed
  qed
qed

lemma chooseCombos_eq:
  assumes "0 \<le> k"
  shows "chooseCombos arr k = Some (map (map Some) (combos (nat k) arr))"
proof (cases "k = 0")
  case True
  then show ?thesis by (simp add: chooseCombos_def backtrack.simps)
next
  case False
  with assms have "int (length ([] :: 'a option list)) < k" by simp
  from backtrack_Loop [OF this, of 0 arr "[]"] False show ?thesis
    by (simp add: chooseCombos_def backtrack.simps [of arr k "Call 0 []"])
qed

lemma backtrack_diverges:
  assumes "backtrack arr k fr result = Some y"
  shows "case fr of
           Call s c \<Rightarrow> \<not> (k < int (length c) \<and> int s \<le> int (length arr) - (k - int (length c)))
         | Loop i c \<Rightarrow> \<not> (k < int (length c) \<and> int i \<le> int (length arr) - (k - int (length c)))"
proof (rule backtrack.raw_induct [where P = "\<lambda>arr k fr result y. case fr of
           Call s c \<Rightarrow> \<not> (k < int (length c) \<and> int s \<le> int (length arr) - (k - int (length c)))
         | Loop i c \<Rightarrow> \<not> (k < int (length c) \<and> int i \<le> int (length arr) - (k - int (length c)))",
      OF _ assms], goal_cases)
  case (1 bt arr k fr result y)
  show ?case
  proof (cases fr)
    case (Call s c)
    show ?thesis
    proof (cases "k < int (length c) \<and> int s \<le> int (length arr) - (k - int (length c))")
      case True
      with Call 1(2) have "bt arr k (Loop s c) result = Some y" by simp
      from 1(1) [OF this] True Call show ?thesis by simp
    next
      case False
      with Call show ?thesis by simp
    qed
  next
    case (Loop i c)
    show ?thesis
    proof (cases "k < int (length c) \<and> int i \<le> int (length arr) - (k - int (length c))")
      case True
      with Loop 1(2) obtain r' where
        "bt arr k (Call (i + 1) (c @ [js_get arr i])) result = Some r'"
        by (auto simp: bind_eq_Some_conv)
      from 1(1) [OF this] True Loop show ?thesis by simp
    next
      case False
      with Loop show ?thesis by simp
    qed
  qed
qed

lemma chooseCombos_negative:
  assumes "k < 0"
  shows "chooseCombos arr k = None"
proof (rule ccontr)
  assume "chooseCombos arr k \<noteq> None"
  then obtain y where "backtrack arr k (Call 0 []) [] = Some y"
    by (auto simp: chooseCombos_def)
  from backtrack_diverges [OF this] assms show False by simp
qed

text \<open>
  C5: for \<open>1 \<le> k \<le> n\<close>, \<^verbatim>\<open>chooseCombos\<close> on the indices \<open>0..<n\<close> returns, as a fixed
  list, exactly \<open>n choose k\<close> index sequences without repetition; each has length
  \<open>k\<close>, is strictly increasing and within range, and every such sequence is there.
\<close>

theorem chooseCombos_enumerates:
  assumes "1 \<le> k" "k \<le> int n"
  shows "\<exists>cs. chooseCombos [0..<n] k = Some (map (map Some) cs)
           \<and> length cs = n choose nat k
           \<and> distinct cs
           \<and> (\<forall>c. c \<in> set cs \<longleftrightarrow> length c = nat k \<and> sorted_wrt (<) c \<and> set c \<subseteq> {..<n})"
proof -
  let ?cs = "combos (nat k) [0..<n]"
  have s: "sorted_wrt (<) [0..<n]" by (simp add: sorted_wrt_upt)
  have "chooseCombos [0..<n] k = Some (map (map Some) ?cs)"
    using assms(1) by (simp add: chooseCombos_eq)
  moreover have "length ?cs = n choose nat k" by (simp add: length_combos)
  moreover have "distinct ?cs" by (simp add: distinct_combos)
  moreover have "\<forall>c. c \<in> set ?cs \<longleftrightarrow> length c = nat k \<and> sorted_wrt (<) c \<and> set c \<subseteq> {..<n}"
  proof (intro allI iffI)
    fix c assume "c \<in> set ?cs"
    with s show "length c = nat k \<and> sorted_wrt (<) c \<and> set c \<subseteq> {..<n}"
      using combos_length [of c "nat k" "[0..<n]"] combos_sorted [of "[0..<n]" c "nat k"]
        combos_subset [of c "nat k" "[0..<n]"] by auto
  next
    fix c assume "length c = nat k \<and> sorted_wrt (<) c \<and> set c \<subseteq> {..<n}"
    with s show "c \<in> set ?cs"
      using combos_complete [of "[0..<n]" c "nat k"] by (auto simp: atLeast0LessThan)
  qed
  ultimately show ?thesis by blast
qed

theorem chooseCombos_enumerates_witness:
  "(1 :: int) \<le> 2 \<and> (2 :: int) \<le> int 4
   \<and> chooseCombos [0..<4] 2 =
       Some (map (map Some) [[0, 1], [0, 2], [0, 3], [1, 2], [1, 3], [2, 3]])
   \<and> (4 :: nat) choose nat 2 = 6"
proof -
  have e: "chooseCombos [0..<4] 2 =
       Some (map (map Some) [[0, 1], [0, 2], [0, 3], [1, 2], [1, 3], [2, 3]])"
    by code_simp
  have b: "(4 :: nat) choose nat 2 = 6" by code_simp
  from chooseCombos_enumerates [of 2 4] e b show ?thesis by simp
qed

section \<open>The tally and the choice of the leader: lemmas\<close>

lemma set_first_keys: "set (first_keys xs) = set xs"
  by (induction xs) auto

lemma distinct_first_keys: "distinct (first_keys xs)"
  by (induction xs) (simp_all add: set_first_keys)

lemma first_keys_snoc:
  "first_keys (xs @ [k]) = (if k \<in> set xs then first_keys xs else first_keys xs @ [k])"
  by (induction xs) auto

lemma first_keys_split:
  "k \<notin> set ys \<Longrightarrow> \<exists>R. first_keys (ys @ k # zs) = first_keys ys @ k # R"
proof (induction ys)
  case Nil
  then show ?case by simp
next
  case (Cons y ys)
  then obtain R where "first_keys (ys @ k # zs) = first_keys ys @ k # R" by auto
  with Cons.prems show ?case by simp
qed

lemma distinct_split_unique:
  assumes "distinct (a @ x # b)" "a @ x # b = c @ x # d"
  shows "a = c"
proof -
  from assms(1) have xa: "x \<notin> set a" by simp
  from assms have "distinct (c @ x # d)" by simp
  then have xc: "x \<notin> set c" by simp
  have "takeWhile (\<lambda>y. y \<noteq> x) (a @ x # b) = a" using xa by (subst takeWhile_append2) auto
  moreover have "takeWhile (\<lambda>y. y \<noteq> x) (c @ x # d) = c" using xc by (subst takeWhile_append2) auto
  ultimately show ?thesis using assms(2) by simp
qed

lemma tally_loop_Cons:
  "tally_loop shares (c # cs) st =
     (case candidate shares c of Inl e \<Rightarrow> Inl e | Inr e \<Rightarrow> tally_loop shares cs (tally_step st e))"
  by (cases st; cases "defined_list (subset_of shares c)";
      cases "reconstructAtOrigin (the (defined_list (subset_of shares c)))")
    (simp_all add: candidate_def tally_step_def Let_def)

lemma tally_loop_Nil: "tally_loop shares [] st = Inr st"
  by (cases st) simp

lemma tally_loop_entries:
  "tally_loop shares cs st = Inr st'
     \<Longrightarrow> \<exists>es. map (candidate shares) cs = map Inr es \<and> st' = foldl tally_step st es"
proof (induction cs arbitrary: st)
  case Nil
  then show ?case by (simp add: tally_loop_Nil)
next
  case (Cons c cs)
  from Cons.prems obtain e where e: "candidate shares c = Inr e"
    "tally_loop shares cs (tally_step st e) = Inr st'"
    by (cases "candidate shares c") (simp_all add: tally_loop_Cons)
  from Cons.IH [OF e(2)] obtain es where
    es: "map (candidate shares) cs = map Inr es" "st' = foldl tally_step (tally_step st e) es"
    by blast
  with e(1) show ?case by (intro exI [of _ "e # es"]) simp
qed

lemma tally_loop_ok:
  "map (candidate shares) cs = map Inr es
     \<Longrightarrow> tally_loop shares cs st = Inr (foldl tally_step st es)"
proof (induction cs arbitrary: st es)
  case Nil
  then show ?case by (simp add: tally_loop_Nil)
next
  case (Cons c cs)
  from Cons.prems obtain e es' where es: "es = e # es'" "candidate shares c = Inr e"
    "map (candidate shares) cs = map Inr es'" by (cases es) auto
  from Cons.IH [OF es(3), of "tally_step st e"] es(1,2) show ?case
    by (simp add: tally_loop_Cons)
qed

lemma tally_inv:
  "map fst (fst (foldl tally_step ([], []) es)) = first_keys (map fst es)
   \<and> (\<forall>k. map_of (fst (foldl tally_step ([], []) es)) k =
          (if k \<in> fst ` set es then Some (int (count_list (map fst es) k)) else None))
   \<and> map_of (snd (foldl tally_step ([], []) es)) = map_of es"
proof (induction es rule: rev_induct)
  case Nil
  show ?case by simp
next
  case (snoc e es)
  let ?st = "foldl tally_step ([], []) es"
  let ?F = "fst ?st" and ?T = "snd ?st"
  from snoc have keys: "map fst ?F = first_keys (map fst es)" by (rule conjunct1)
  from snoc have cnt: "map_of ?F k =
          (if k \<in> fst ` set es then Some (int (count_list (map fst es) k)) else None)" for k
    by blast
  from snoc have tr: "map_of ?T = map_of es" by blast
  have st': "foldl tally_step ([], []) (es @ [e]) = tally_step ?st e" by simp
  have k1: "map fst (fst (tally_step ?st e)) = first_keys (map fst (es @ [e]))"
    by (simp add: tally_step_def update_keys keys set_first_keys first_keys_snoc)
  have k2: "map_of (fst (tally_step ?st e)) k =
          (if k \<in> fst ` set (es @ [e]) then Some (int (count_list (map fst (es @ [e])) k)) else None)"
    for k
    by (cases "fst e \<in> fst ` set es") (auto simp: tally_step_def update_conv' cnt)
  have k3: "map_of (snd (tally_step ?st e)) = map_of (es @ [e])"
  proof (cases "map_of es (fst e)")
    case None
    then show ?thesis
      by (auto simp: tally_step_def update_conv' tr fun_eq_iff map_add_def split: option.splits)
  next
    case (Some s)
    then show ?thesis
      by (auto simp: tally_step_def tr fun_eq_iff map_add_def split: option.splits)
  qed
  show ?case unfolding st' using k1 k2 k3 by blast
qed

lemma top_loop_none:
  "\<forall>e\<in>set F. snd e \<le> tc \<Longrightarrow> top_loop F (tk, tc) = (tk, tc)"
  by (induction F) auto

lemma top_loop_char:
  assumes "\<exists>e\<in>set F. tc < snd e"
  shows "\<exists>F1 kw vw F2. F = F1 @ (kw, vw) # F2 \<and> top_loop F (tk, tc) = (Some kw, vw) \<and> tc < vw
           \<and> (\<forall>e\<in>set F1. snd e < vw) \<and> (\<forall>e\<in>set F2. snd e \<le> vw)"
  using assms
proof (induction F arbitrary: tk tc)
  case Nil
  then show ?case by simp
next
  case (Cons a F)
  obtain k v where a: "a = (k, v)" by (cases a)
  show ?case
  proof (cases "tc < v")
    case True
    show ?thesis
    proof (cases "\<exists>e\<in>set F. v < snd e")
      case ex: True
      from Cons.IH [OF ex, of "Some k"] obtain F1 kw vw F2 where
        s: "F = F1 @ (kw, vw) # F2" "top_loop F (Some k, v) = (Some kw, vw)" "v < vw"
          "\<forall>e\<in>set F1. snd e < vw" "\<forall>e\<in>set F2. snd e \<le> vw" by blast
      show ?thesis
        using a True s by (intro exI [of _ "a # F1"] exI [of _ kw] exI [of _ vw] exI [of _ F2]) auto
    next
      case False
      then have "\<forall>e\<in>set F. snd e \<le> v" by auto
      then have "top_loop F (Some k, v) = (Some k, v)" by (rule top_loop_none)
      with a True False show ?thesis
        by (intro exI [of _ "[]"] exI [of _ k] exI [of _ v] exI [of _ F]) auto
    qed
  next
    case False
    with Cons.prems a have ex: "\<exists>e\<in>set F. tc < snd e" by auto
    from Cons.IH [OF ex, of tk] obtain F1 kw vw F2 where
      s: "F = F1 @ (kw, vw) # F2" "top_loop F (tk, tc) = (Some kw, vw)" "tc < vw"
        "\<forall>e\<in>set F1. snd e < vw" "\<forall>e\<in>set F2. snd e \<le> vw" by blast
    show ?thesis
      using a False s by (intro exI [of _ "a # F1"] exI [of _ kw] exI [of _ vw] exI [of _ F2]) auto
  qed
qed

lemma votes_count:
  assumes "map (candidate shares) cs = map Inr es"
  shows "votes shares cs k = count_list (map fst es) k"
proof -
  have "map (result_key shares) cs = map (\<lambda>e. Some (fst e)) es"
    using assms
  proof (induction cs arbitrary: es)
    case Nil
    then show ?case by simp
  next
    case (Cons c cs)
    then obtain e es' where "es = e # es'" "candidate shares c = Inr e"
      "map (candidate shares) cs = map Inr es'" by (cases es) auto
    with Cons.IH [of es'] show ?case by (simp add: result_key_def)
  qed
  then have "votes shares cs k = count_list (map Some (map fst es)) (Some k)"
    by (simp add: votes_def comp_def)
  also have "\<dots> = count_list (map fst es) k"
    by (rule count_list_map_conv) simp
  finally show ?thesis .
qed

lemma tally_facts:
  assumes "tally_loop shares cs ([], []) = Inr (frequency, comboTrace)"
  obtains es where "map (candidate shares) cs = map Inr es"
    "map fst frequency = first_keys (map fst es)"
    "\<And>k. map_of frequency k =
       (if k \<in> fst ` set es then Some (int (count_list (map fst es) k)) else None)"
    "map_of comboTrace = map_of es"
proof -
  from tally_loop_entries [OF assms] obtain es where
    es: "map (candidate shares) cs = map Inr es"
      "(frequency, comboTrace) = foldl tally_step ([], []) es" by blast
  from es(2) have f: "frequency = fst (foldl tally_step ([], []) es)"
    and t: "comboTrace = snd (foldl tally_step ([], []) es)"
    by (metis fst_conv, metis snd_conv)
  from tally_inv [of es] show ?thesis
    using that [of es] es(1) unfolding f t by blast
qed

lemma tally_values:
  assumes "tally_loop shares cs ([], []) = Inr (frequency, comboTrace)"
    "map (candidate shares) cs = map Inr es" "e \<in> set frequency"
  shows "fst e \<in> fst ` set es \<and> snd e = int (count_list (map fst es) (fst e))"
proof -
  from tally_facts [OF assms(1)] obtain es' where
    es': "map (candidate shares) cs = map Inr es'"
      "map fst frequency = first_keys (map fst es')"
      "\<And>k. map_of frequency k =
         (if k \<in> fst ` set es' then Some (int (count_list (map fst es') k)) else None)"
    by blast
  from es'(1) assms(2) have "map Inr es' = (map Inr es :: (error + key \<times> share list) list)"
    by simp
  then have eq: "es' = es" by (simp add: inj_map_eq_map)
  have "distinct (map fst frequency)" by (simp add: es'(2) distinct_first_keys)
  with assms(3) have "map_of frequency (fst e) = Some (snd e)" by (simp add: map_of_is_SomeI)
  with es'(3) [of "fst e"] eq show ?thesis by (auto split: if_splits)
qed

lemma tally_nonempty:
  assumes "tally_loop shares cs ([], []) = Inr (frequency, comboTrace)"
  shows "frequency = [] \<longleftrightarrow> cs = []"
proof -
  from tally_facts [OF assms] obtain es where
    es: "map (candidate shares) cs = map Inr es"
      "map fst frequency = first_keys (map fst es)" by blast
  from es(2) have "set (map fst frequency) = set (map fst es)" by (simp add: set_first_keys)
  then have "frequency = [] \<longleftrightarrow> es = []"
    by (metis list.map_disc_iff set_empty)
  moreover from es(1) have "length cs = length es" by (metis length_map)
  ultimately show ?thesis by auto
qed

lemma top_loop_tally_Some:
  assumes "tally_loop shares cs ([], []) = Inr (frequency, comboTrace)" "cs \<noteq> []"
  shows "\<exists>e\<in>set frequency. - 1 < snd e"
proof -
  from tally_loop_entries [OF assms(1)] obtain es where
    es: "map (candidate shares) cs = map Inr es" by blast
  from assms tally_nonempty [OF assms(1)] obtain e where e: "e \<in> set frequency"
    by (cases frequency) auto
  from tally_values [OF assms(1) es e] have "0 \<le> snd e" by simp
  with e show ?thesis by force
qed

lemma leader_first_maximal:
  assumes "tally_loop shares cs ([], []) = Inr (frequency, comboTrace)" "cs \<noteq> []"
  shows "\<exists>w<length cs. \<exists>k sub.
           candidate shares (cs ! w) = Inr (k, sub)
           \<and> fst (top_loop frequency (None, - 1)) = Some k
           \<and> map_of comboTrace k = Some sub
           \<and> (\<forall>j<w. result_key shares (cs ! j) \<noteq> Some k)
           \<and> (\<forall>k'. votes shares cs k' \<le> votes shares cs k)
           \<and> (\<forall>j<w. \<forall>k'. result_key shares (cs ! j) = Some k'
                 \<longrightarrow> votes shares cs k' < votes shares cs k)"
proof -
  from tally_facts [OF assms(1)] obtain es where
    es: "map (candidate shares) cs = map Inr es"
    and keys: "map fst frequency = first_keys (map fst es)"
    and cnt: "\<And>k. map_of frequency k =
       (if k \<in> fst ` set es then Some (int (count_list (map fst es) k)) else None)"
    and tr: "map_of comboTrace = map_of es" by blast
  let ?ks = "map fst es"
  from es have len: "length cs = length es" by (metis length_map)
  have cand: "candidate shares (cs ! j) = Inr (es ! j)" if "j < length cs" for j
  proof -
    from that len have "map (candidate shares) cs ! j = map Inr es ! j" by (simp add: es)
    with that len show ?thesis by simp
  qed
  have rk: "result_key shares (cs ! j) = Some (fst (es ! j))" if "j < length cs" for j
    using cand [OF that] by (simp add: result_key_def)
  have vt: "votes shares cs k = count_list ?ks k" for k
    using es by (rule votes_count)
  have dist: "distinct (map fst frequency)" by (simp add: keys distinct_first_keys)
  have val: "snd e = int (count_list ?ks (fst e))" and mem: "fst e \<in> fst ` set es"
    if "e \<in> set frequency" for e
    using tally_values [OF assms(1) es that] by simp_all
  from top_loop_char [OF top_loop_tally_Some [OF assms], of None] obtain F1 kw vw F2 where
    sp: "frequency = F1 @ (kw, vw) # F2"
    and top: "top_loop frequency (None, - 1) = (Some kw, vw)"
    and lt: "\<forall>e\<in>set F1. snd e < vw" and le: "\<forall>e\<in>set F2. snd e \<le> vw" by blast
  from sp have kwin: "(kw, vw) \<in> set frequency" by simp
  from val [OF kwin] have vw: "vw = int (count_list ?ks kw)" by simp
  from mem [OF kwin] have "\<exists>x\<in>set es. fst x = kw" by auto
  from split_list_first_prop [OF this] obtain ys x zs where
    split: "es = ys @ x # zs" "fst x = kw" "\<forall>y\<in>set ys. fst y \<noteq> kw" by blast
  let ?w = "length ys"
  from split(1) len have wl: "?w < length cs" by simp
  from split(1) have xw: "es ! ?w = x" by simp
  have c1: "candidate shares (cs ! ?w) = Inr (kw, snd x)"
    using cand [OF wl] xw split(2) by (cases x) simp
  have "map_of ys kw = None" using split(3) by (force simp: map_of_eq_None_iff)
  then have "map_of es kw = Some (snd x)"
    using split(1,2) by (cases x) (simp add: map_add_def)
  then have c3: "map_of comboTrace kw = Some (snd x)" by (simp add: tr)
  have early: "fst (es ! j) \<in> fst ` set ys" if "j < ?w" for j
    using that split(1) by (simp add: nth_append)
  have c4: "\<forall>j<?w. result_key shares (cs ! j) \<noteq> Some kw"
  proof (intro allI impI)
    fix j assume j: "j < ?w"
    with wl have "j < length cs" by simp
    from rk [OF this] early [OF j] split(3) show "result_key shares (cs ! j) \<noteq> Some kw"
      by auto
  qed
  have c5: "\<forall>k'. votes shares cs k' \<le> votes shares cs kw"
  proof
    fix k'
    show "votes shares cs k' \<le> votes shares cs kw"
    proof (cases "k' \<in> fst ` set es")
      case True
      with cnt [of k'] have "(k', int (count_list ?ks k')) \<in> set frequency"
        by (simp add: map_of_SomeD)
      with sp lt le have "int (count_list ?ks k') \<le> vw" by auto
      then show ?thesis by (simp add: vt vw)
    next
      case False
      then have "count_list ?ks k' = 0" by (simp add: count_list_0_iff)
      then show ?thesis by (simp add: vt)
    qed
  qed
  from split(3) have "kw \<notin> set (map fst ys)" by auto
  from first_keys_split [OF this, of "map fst zs"] split(1,2) obtain R where
    "first_keys ?ks = first_keys (map fst ys) @ kw # R" by auto
  with keys sp have e1: "first_keys (map fst ys) @ kw # R = map fst F1 @ kw # map fst F2"
    by simp
  have "distinct (first_keys (map fst ys) @ kw # R)" using e1 dist sp by simp
  from distinct_split_unique [OF this e1] have "set (map fst F1) = set (first_keys (map fst ys))"
    by simp
  then have f1: "set (map fst F1) = set (map fst ys)"
    by (simp only: set_first_keys)
  have c6: "\<forall>j<?w. \<forall>k'. result_key shares (cs ! j) = Some k'
                 \<longrightarrow> votes shares cs k' < votes shares cs kw"
  proof (intro allI impI)
    fix j k' assume j: "j < ?w" and k': "result_key shares (cs ! j) = Some k'"
    from j wl have "j < length cs" by simp
    from rk [OF this] k' have "k' = fst (es ! j)" by simp
    with early [OF j] f1 have "k' \<in> set (map fst F1)" by simp
    then obtain e where e: "e \<in> set F1" "fst e = k'" by auto
    with sp have "e \<in> set frequency" by simp
    from val [OF this] e lt have "int (count_list ?ks k') < vw" by auto
    then show "votes shares cs k' < votes shares cs kw" by (simp add: vt vw)
  qed
  from wl c1 top c3 c4 c5 c6 show ?thesis
    by (intro exI [of _ ?w] conjI exI [of _ kw] exI [of _ "snd x"]) simp_all
qed

lemma map_of_first:
  "j < length es \<Longrightarrow> es ! j = (k, v) \<Longrightarrow> \<forall>i<j. fst (es ! i) \<noteq> k \<Longrightarrow> map_of es k = Some v"
proof (induction es arbitrary: j)
  case Nil
  then show ?case by simp
next
  case (Cons e es)
  show ?case
  proof (cases j)
    case 0
    with Cons.prems show ?thesis by simp
  next
    case (Suc j')
    with Cons.prems have "j' < length es" "es ! j' = (k, v)" by simp_all
    moreover from Cons.prems(3) Suc have "\<forall>i<j'. fst (es ! i) \<noteq> k" by auto
    ultimately have "map_of es k = Some v" by (rule Cons.IH)
    moreover from Cons.prems(3) Suc have "fst e \<noteq> k" by auto
    ultimately show ?thesis by (cases e) simp
  qed
qed

lemma tally_contents:
  assumes "tally_loop shares cs ([], []) = Inr (frequency, comboTrace)"
  shows "(\<forall>k'. map_of frequency k' =
            (if votes shares cs k' = 0 then None else Some (int (votes shares cs k'))))
       \<and> (\<forall>j<length cs. \<forall>k' sub'.
             candidate shares (cs ! j) = Inr (k', sub')
             \<and> (\<forall>i<j. result_key shares (cs ! i) \<noteq> Some k')
             \<longrightarrow> map_of comboTrace k' = Some sub')
       \<and> (\<forall>k'. votes shares cs k' = 0 \<longrightarrow> map_of comboTrace k' = None)"
proof -
  from tally_facts [OF assms] obtain es where
    es: "map (candidate shares) cs = map Inr es"
    and cnt: "\<And>k. map_of frequency k =
       (if k \<in> fst ` set es then Some (int (count_list (map fst es) k)) else None)"
    and tr: "map_of comboTrace = map_of es" by blast
  from es have len: "length cs = length es" by (metis length_map)
  have cand: "candidate shares (cs ! j) = Inr (es ! j)" if "j < length cs" for j
  proof -
    from that len have "map (candidate shares) cs ! j = map Inr es ! j" by (simp add: es)
    with that len show ?thesis by simp
  qed
  have vt: "votes shares cs k = count_list (map fst es) k" for k
    using es by (rule votes_count)
  have zero: "votes shares cs k = 0 \<longleftrightarrow> k \<notin> fst ` set es" for k
    by (simp add: vt count_list_0_iff)
  have a: "\<forall>k'. map_of frequency k' =
            (if votes shares cs k' = 0 then None else Some (int (votes shares cs k')))"
    by (simp add: cnt zero) (simp add: vt)
  have b: "\<forall>j<length cs. \<forall>k' sub'.
             candidate shares (cs ! j) = Inr (k', sub')
             \<and> (\<forall>i<j. result_key shares (cs ! i) \<noteq> Some k')
             \<longrightarrow> map_of comboTrace k' = Some sub'"
  proof (intro allI impI)
    fix j k' sub'
    assume j: "j < length cs"
      and h: "candidate shares (cs ! j) = Inr (k', sub')
             \<and> (\<forall>i<j. result_key shares (cs ! i) \<noteq> Some k')"
    from h cand [OF j] have ej: "es ! j = (k', sub')" by simp
    have "\<forall>i<j. fst (es ! i) \<noteq> k'"
    proof (intro allI impI)
      fix i assume i: "i < j"
      with j have "i < length cs" by simp
      from cand [OF this] have "result_key shares (cs ! i) = Some (fst (es ! i))"
        by (simp add: result_key_def)
      with h i show "fst (es ! i) \<noteq> k'" by auto
    qed
    with j len ej have "map_of es k' = Some sub'" by (intro map_of_first [of j]) simp_all
    then show "map_of comboTrace k' = Some sub'" by (simp add: tr)
  qed
  have c: "\<forall>k'. votes shares cs k' = 0 \<longrightarrow> map_of comboTrace k' = None"
    by (simp add: zero tr map_of_eq_None_iff)
  from a b c show ?thesis by blast
qed

text \<open>
  C3: when the tally over the combinations \<open>cs\<close> has been built, the selected key is
  the key of some combination \<open>cs ! w\<close> that is the first one to produce it; its
  number of votes is the maximum, every key first produced by an earlier combination
  has strictly fewer votes, and the subset retained for the key is the subset of
  \<open>cs ! w\<close>. The tally holds for each key the number of combinations that produce it,
  and the subset retained for each key, selected or not, is the subset of the first
  combination that produces it; keys that no combination produces have no entry.
\<close>

theorem consensus_tie_break:
  assumes "tally_loop shares cs ([], []) = Inr (frequency, comboTrace)" "cs \<noteq> []"
  shows "(\<exists>w<length cs. \<exists>k sub.
           candidate shares (cs ! w) = Inr (k, sub)
           \<and> fst (top_loop frequency (None, - 1)) = Some k
           \<and> map_of comboTrace k = Some sub
           \<and> (\<forall>j<w. result_key shares (cs ! j) \<noteq> Some k)
           \<and> (\<forall>k'. votes shares cs k' \<le> votes shares cs k)
           \<and> (\<forall>j<w. \<forall>k'. result_key shares (cs ! j) = Some k'
                 \<longrightarrow> votes shares cs k' < votes shares cs k))
       \<and> (\<forall>k'. map_of frequency k' =
            (if votes shares cs k' = 0 then None else Some (int (votes shares cs k'))))
       \<and> (\<forall>j<length cs. \<forall>k' sub'.
             candidate shares (cs ! j) = Inr (k', sub')
             \<and> (\<forall>i<j. result_key shares (cs ! i) \<noteq> Some k')
             \<longrightarrow> map_of comboTrace k' = Some sub')
       \<and> (\<forall>k'. votes shares cs k' = 0 \<longrightarrow> map_of comboTrace k' = None)"
  using leader_first_maximal [OF assms] tally_contents [OF assms(1)] by (rule conjI)

theorem consensus_tie_break_witness:
  "tally_loop
     [\<lparr>share_x = 0, share_y = 7\<rparr>, \<lparr>share_x = 1, share_y = 5\<rparr>,
      \<lparr>share_x = 2, share_y = 7\<rparr>, \<lparr>share_x = 3, share_y = 9\<rparr>]
     [[Some 0, Some 1], [Some 0, Some 2], [Some 0, Some 3],
      [Some 1, Some 2], [Some 1, Some 3], [Some 2, Some 3]] ([], [])
     = Inr ([((7, 1), 3), ((3, 1), 3)],
            [((7, 1), [\<lparr>share_x = 0, share_y = 7\<rparr>, \<lparr>share_x = 1, share_y = 5\<rparr>]),
             ((3, 1), [\<lparr>share_x = 1, share_y = 5\<rparr>, \<lparr>share_x = 2, share_y = 7\<rparr>])])
   \<and> fst (top_loop [((7, 1), 3), ((3, 1), 3)] (None, - 1)) = Some (7, 1)
   \<and> candidate
        [\<lparr>share_x = 0, share_y = 7\<rparr>, \<lparr>share_x = 1, share_y = 5\<rparr>,
         \<lparr>share_x = 2, share_y = 7\<rparr>, \<lparr>share_x = 3, share_y = 9\<rparr>]
        ([[Some 0, Some 1], [Some 0, Some 2], [Some 0, Some 3],
          [Some 1, Some 2], [Some 1, Some 3], [Some 2, Some 3]] ! 3)
      = Inr ((3, 1), [\<lparr>share_x = 1, share_y = 5\<rparr>, \<lparr>share_x = 2, share_y = 7\<rparr>])
   \<and> (\<exists>w k sub.
         candidate
           [\<lparr>share_x = 0, share_y = 7\<rparr>, \<lparr>share_x = 1, share_y = 5\<rparr>,
            \<lparr>share_x = 2, share_y = 7\<rparr>, \<lparr>share_x = 3, share_y = 9\<rparr>]
           ([[Some 0, Some 1], [Some 0, Some 2], [Some 0, Some 3],
             [Some 1, Some 2], [Some 1, Some 3], [Some 2, Some 3]] ! w) = Inr (k, sub)
         \<and> fst (top_loop [((7, 1), 3), ((3, 1), 3)] (None, - 1)) = Some k
         \<and> (\<forall>j<w. result_key
               [\<lparr>share_x = 0, share_y = 7\<rparr>, \<lparr>share_x = 1, share_y = 5\<rparr>,
                \<lparr>share_x = 2, share_y = 7\<rparr>, \<lparr>share_x = 3, share_y = 9\<rparr>]
               ([[Some 0, Some 1], [Some 0, Some 2], [Some 0, Some 3],
                 [Some 1, Some 2], [Some 1, Some 3], [Some 2, Some 3]] ! j) \<noteq> Some k))"
proof -
  let ?S = "[\<lparr>share_x = 0, share_y = 7\<rparr>, \<lparr>share_x = 1, share_y = 5\<rparr>,
      \<lparr>share_x = 2, share_y = 7\<rparr>, \<lparr>share_x = 3, share_y = 9\<rparr>]"
  let ?cs = "[[Some 0, Some 1], [Some 0, Some 2], [Some 0, Some 3],
      [Some 1, Some 2], [Some 1, Some 3], [Some (2 :: nat), Some 3]]"
  let ?F = "[((7, 1), 3), ((3 :: int, 1 :: int), 3 :: int)]"
  let ?T = "[((7 :: int, 1 :: int), [\<lparr>share_x = 0, share_y = 7\<rparr>, \<lparr>share_x = 1, share_y = 5\<rparr>]),
             ((3, 1), [\<lparr>share_x = 1, share_y = 5\<rparr>, \<lparr>share_x = 2, share_y = 7\<rparr>])]"
  have h1: "tally_loop ?S ?cs ([], []) = Inr (?F, ?T)" by code_simp
  have h2: "?cs \<noteq> []" by simp
  have h3: "fst (top_loop ?F (None, - 1)) = Some (7, 1)" by simp
  have h4: "candidate ?S (?cs ! 3)
      = Inr ((3, 1), [\<lparr>share_x = 1, share_y = 5\<rparr>, \<lparr>share_x = 2, share_y = 7\<rparr>])"
    by code_simp
  from consensus_tie_break [OF h1 h2] have "\<exists>w k sub.
         candidate ?S (?cs ! w) = Inr (k, sub)
         \<and> fst (top_loop ?F (None, - 1)) = Some k
         \<and> (\<forall>j<w. result_key ?S (?cs ! j) \<noteq> Some k)"
    by blast
  with h1 h3 h4 show ?thesis by blast
qed

section \<open>recoverSecretFromJSON: lemmas\<close>

lemma reconstructAtOrigin_cases:
  "reconstructAtOrigin ds = Inl Divide_by_zero
     \<or> (\<exists>r. reconstructAtOrigin ds = Inr r \<and> normal_form r)"
  using reconstructAtOrigin_ok [of ds] reconstructAtOrigin_err [of ds] by blast

lemma candidate_error:
  "candidate shares c = Inl e \<Longrightarrow> e = TypeError_undefined \<or> e = Divide_by_zero"
  using reconstructAtOrigin_cases [of "the (defined_list (subset_of shares c))"]
  by (cases "defined_list (subset_of shares c)") (auto simp: candidate_def)

lemma tally_loop_error:
  "tally_loop shares cs st = Inl e \<Longrightarrow> e = TypeError_undefined \<or> e = Divide_by_zero"
proof (induction cs arbitrary: st)
  case Nil
  then show ?case by (simp add: tally_loop_Nil)
next
  case (Cons c cs)
  then show ?case
    using candidate_error [of shares c]
    by (cases "candidate shares c") (auto simp: tally_loop_Cons)
qed

lemma Rational_error: "Rational n d = Inl e \<Longrightarrow> e = Denominator_zero"
  using Rational_ok [of d n] by (cases "d = 0") (auto simp: Rational_zero_den)

lemma finish_no_consensus_error:
  "ebind (Rational n d) (\<lambda>secretFrac.
     ebind (toIntegerIfExact secretFrac) (\<lambda>intValue.
       case intValue of None \<Rightarrow> Inr (SecretFraction secretFrac sub)
       | Some v \<Rightarrow> Inr (Secret v sub))) \<noteq> Inl Could_not_determine_consensus_secret"
proof (cases "Rational n d")
  case (Inl e)
  with Rational_error [OF Inl] show ?thesis by simp
next
  case (Inr r)
  from Rational_normal [OF Inr] have "toIntegerIfExact r = Inr (if den r = 1 then Some (num r) else None)"
    by (rule toIntegerIfExact_normal)
  with Inr show ?thesis by simp
qed

lemma recover_unfold:
  assumes "0 \<le> k" "k \<le> int (length pushed)"
  shows "recoverSecretFromJSON k pushed =
     Some (ebind (tally_loop (sort_key share_x pushed)
                    (map (map Some) (combos (nat k) [0..<length pushed])) ([], []))
       (\<lambda>(frequency, comboTrace).
                 case fst (top_loop frequency (None, - 1)) of
                   None \<Rightarrow> Inl Could_not_determine_consensus_secret
                 | Some (numStr, denStr) \<Rightarrow>
                     ebind (Rational numStr denStr) (\<lambda>secretFrac.
                     ebind (toIntegerIfExact secretFrac) (\<lambda>intValue.
                       case intValue of
                         None \<Rightarrow>
                           Inr (SecretFraction secretFrac (map_of comboTrace (numStr, denStr)))
                       | Some v \<Rightarrow> Inr (Secret v (map_of comboTrace (numStr, denStr)))))))"
  using assms by (simp add: recoverSecretFromJSON_def chooseCombos_eq Let_def)

lemma combos_nonempty: "k \<le> length xs \<Longrightarrow> combos k xs \<noteq> []"
proof -
  assume "k \<le> length xs"
  then have "0 < length xs choose k" by simp
  then have "0 < length (combos k xs)" by (simp add: length_combos)
  then show ?thesis by auto
qed

lemma never_no_consensus:
  "recoverSecretFromJSON k pushed \<noteq> Some (Inl Could_not_determine_consensus_secret)"
proof (cases "int (length pushed) < k")
  case True
  then show ?thesis by (simp add: recoverSecretFromJSON_def)
next
  case False
  show ?thesis
  proof (cases "k < 0")
    case True
    with False show ?thesis by (simp add: recoverSecretFromJSON_def chooseCombos_negative)
  next
    case nn: False
    let ?S = "sort_key share_x pushed"
    let ?cs = "map (map Some) (combos (nat k) [0..<length pushed])"
    from nn False have kn: "0 \<le> k" "k \<le> int (length pushed)" by simp_all
    then have ne: "?cs \<noteq> []" using combos_nonempty [of "nat k" "[0..<length pushed]"] by simp
    show ?thesis
    proof (cases "tally_loop ?S ?cs ([], [])")
      case (Inl e)
      with tally_loop_error [OF Inl] show ?thesis
        by (auto simp: recover_unfold [OF kn])
    next
      case (Inr st)
      obtain F T where st: "st = (F, T)" by (cases st)
      from Inr st have tl: "tally_loop ?S ?cs ([], []) = Inr (F, T)" by simp
      from top_loop_char [OF top_loop_tally_Some [OF tl ne], of None] obtain kw vw where
        "top_loop F (None, - 1) = (Some kw, vw)" by blast
      then obtain a b where "top_loop F (None, - 1) = (Some (a, b), vw)" by (cases kw) simp
      then show ?thesis
        using tl finish_no_consensus_error [of a b "map_of T (a, b)"]
        by (simp add: recover_unfold [OF kn])
    qed
  qed
qed

lemma recover_k0: "recoverSecretFromJSON 0 pushed = Some (Inr (Secret 0 (Some [])))"
proof -
  have r: "reconstructAtOrigin [] = Inr \<lparr>num = 0, den = 1\<rparr>"
    by (simp add: reconstructAtOrigin_def Rational_zero_def Rational_int)
  have t: "toIntegerIfExact \<lparr>num = 0, den = 1\<rparr> = Inr (Some 0)"
    by (simp add: toIntegerIfExact_def)
  show ?thesis
    using recover_unfold [of 0 pushed]
    by (simp add: subset_of_def r t Rational_int Let_def)
qed

text \<open>
  C6, as the code has it: the error \<^verbatim>\<open>Could not determine consensus secret\<close> is raised
  exactly when no key was selected, which for a tally that was built means an empty
  tally, and that only for an empty list of combinations. With an integer \<open>k\<close> this
  never happens: \<open>k = 0\<close> gives the single empty combination, which interpolates to
  0, and the procedure returns the integer secret 0 with the empty subset.
\<close>

theorem no_consensus_error_unreachable:
  "recoverSecretFromJSON 0 pushed = Some (Inr (Secret 0 (Some [])))
   \<and> (\<forall>e. recoverSecretFromJSON k pushed = Some (Inl e) \<longrightarrow> \<not> NoConsensusError e)
   \<and> (tally_loop shares cs ([], []) = Inr (frequency, comboTrace) \<longrightarrow>
        (fst (top_loop frequency (None, - 1)) = None \<longleftrightarrow> frequency = [])
        \<and> (frequency = [] \<longleftrightarrow> cs = []))"
proof (intro conjI impI)
  show "recoverSecretFromJSON 0 pushed = Some (Inr (Secret 0 (Some [])))" by (rule recover_k0)
  show "\<forall>e. recoverSecretFromJSON k pushed = Some (Inl e) \<longrightarrow> \<not> NoConsensusError e"
    using never_no_consensus [of k pushed] by (auto simp: NoConsensusError_def)
next
  assume tl: "tally_loop shares cs ([], []) = Inr (frequency, comboTrace)"
  show "frequency = [] \<longleftrightarrow> cs = []" by (rule tally_nonempty [OF tl])
  show "fst (top_loop frequency (None, - 1)) = None \<longleftrightarrow> frequency = []"
  proof (cases "cs = []")
    case True
    with tally_nonempty [OF tl] show ?thesis by simp
  next
    case False
    from top_loop_char [OF top_loop_tally_Some [OF tl False], of None] obtain kw vw where
      "top_loop frequency (None, - 1) = (Some kw, vw)" by blast
    with False tally_nonempty [OF tl] show ?thesis by simp
  qed
qed

theorem no_consensus_error_unreachable_witness:
  "tally_loop [\<lparr>share_x = 1, share_y = 5\<rparr>] [[Some 0]] ([], [])
     = Inr ([((5, 1), 1)], [((5, 1), [\<lparr>share_x = 1, share_y = 5\<rparr>])])
   \<and> fst (top_loop [((5, 1), 1)] (None, - 1)) \<noteq> None
   \<and> recoverSecretFromJSON 0 [\<lparr>share_x = 1, share_y = 5\<rparr>] = Some (Inr (Secret 0 (Some [])))"
proof -
  have h: "tally_loop [\<lparr>share_x = 1, share_y = 5\<rparr>] [[Some 0]] ([], [])
     = Inr ([((5, 1), 1)], [((5, 1), [\<lparr>share_x = 1, share_y = 5\<rparr>])])" by code_simp
  from no_consensus_error_unreachable [of "[\<lparr>share_x = 1, share_y = 5\<rparr>]" 0
      "[\<lparr>share_x = 1, share_y = 5\<rparr>]" "[[Some 0]]" "[((5, 1), 1)]"
      "[((5, 1), [\<lparr>share_x = 1, share_y = 5\<rparr>])]"] h
  show ?thesis by simp
qed

theorem no_consensus_k0_counterexample:
  "recoverSecretFromJSON 0 [\<lparr>share_x = 1, share_y = 5\<rparr>, \<lparr>share_x = 2, share_y = 7\<rparr>]
     = Some (Inr (Secret 0 (Some [])))"
  by code_simp

text \<open>
  C9: with fewer shares than \<open>k\<close> the procedure fails with \<^verbatim>\<open>Not enough shares in input\<close>,
  whatever the shares are; the check comes before \<^verbatim>\<open>chooseCombos\<close> is called.
\<close>

theorem insufficient_shares:
  assumes "int (length pushed) < k"
  shows "recoverSecretFromJSON k pushed = Some (Inl Not_enough_shares_in_input)
         \<and> InsufficientSharesError Not_enough_shares_in_input"
  using assms by (simp add: recoverSecretFromJSON_def InsufficientSharesError_def)

theorem insufficient_shares_witness:
  "int (length [\<lparr>share_x = 1, share_y = 5\<rparr>, \<lparr>share_x = 2, share_y = 7\<rparr>]) < 3
   \<and> recoverSecretFromJSON 3 [\<lparr>share_x = 1, share_y = 5\<rparr>, \<lparr>share_x = 2, share_y = 7\<rparr>]
       = Some (Inl Not_enough_shares_in_input)"
  using insufficient_shares [of "[\<lparr>share_x = 1, share_y = 5\<rparr>, \<lparr>share_x = 2, share_y = 7\<rparr>]" 3]
  by simp

section \<open>Three shares on a line and one wrong share\<close>

lemma two_point:
  fixes a b c d :: real
  assumes "a \<noteq> b"
  shows "c * (- b / (a - b)) + d * (- a / (b - a)) = (b * c - a * d) / (b - a)"
proof -
  have "- b / (a - b) = b / (b - a)"
    by (metis minus_diff_eq minus_divide_divide)
  then have "c * (- b / (a - b)) + d * (- a / (b - a)) = c * b / (b - a) - d * a / (b - a)"
    by simp
  also have "\<dots> = (b * c - a * d) / (b - a)"
    by (simp add: diff_divide_distrib mult.commute)
  finally show ?thesis .
qed

lemma pair_value:
  assumes "share_x p \<noteq> share_x q"
  shows "\<exists>r. reconstructAtOrigin [p, q] = Inr r \<and> normal_form r \<and> val r = pv p q"
proof -
  from assms have "distinct (map share_x [p, q])" by simp
  from reconstructAtOrigin_ok [OF this] obtain r where
    r: "reconstructAtOrigin [p, q] = Inr r" "normal_form r" "val r = lagrange_at_0 [p, q]"
    by blast
  from assms have ne: "real_of_int (share_x p) \<noteq> real_of_int (share_x q)" by simp
  have "lagrange_at_0 [p, q] =
      real_of_int (share_y p) * (- real_of_int (share_x q) / (real_of_int (share_x p) - real_of_int (share_x q)))
      + real_of_int (share_y q) * (- real_of_int (share_x p) / (real_of_int (share_x q) - real_of_int (share_x p)))"
    by (simp add: lagrange_at_0_def basis_at_def basis_factor_def)
  also have "\<dots> = pv p q"
    unfolding pv_def by (rule two_point [OF ne])
  finally show ?thesis using r by auto
qed

lemma pair_key_eq:
  assumes "share_x p \<noteq> share_x q" "share_x p' \<noteq> share_x q'"
  shows "pair_key p q = pair_key p' q' \<longleftrightarrow> pv p q = pv p' q'"
proof -
  from pair_value [OF assms(1)] obtain r where
    r: "reconstructAtOrigin [p, q] = Inr r" "normal_form r" "val r = pv p q" by blast
  from pair_value [OF assms(2)] obtain r' where
    r': "reconstructAtOrigin [p', q'] = Inr r'" "normal_form r'" "val r' = pv p' q'" by blast
  have "pair_key p q = pair_key p' q' \<longleftrightarrow> r = r'"
    using r(1) r'(1) by (auto simp: pair_key_def)
  also have "\<dots> \<longleftrightarrow> val r = val r'"
    using normal_form_val_eq [OF r(2) r'(2)] by auto
  finally show ?thesis by (simp add: r r')
qed

lemma pair_key_3:
  assumes "share_x p \<noteq> share_x q"
  shows "pair_key p q = (3, 1) \<longleftrightarrow> pv p q = 3"
proof -
  from pair_value [OF assms] obtain r where
    r: "reconstructAtOrigin [p, q] = Inr r" "normal_form r" "val r = pv p q" by blast
  have n3: "normal_form \<lparr>num = 3, den = 1\<rparr>" by (simp add: normal_form_def)
  have "pair_key p q = (3, 1) \<longleftrightarrow> r = \<lparr>num = 3, den = 1\<rparr>"
    using r(1) by (auto simp: pair_key_def)
  also have "\<dots> \<longleftrightarrow> val r = val \<lparr>num = 3, den = 1\<rparr>"
    using normal_form_val_eq [OF r(2) n3] by auto
  also have "\<dots> \<longleftrightarrow> pv p q = 3"
    unfolding r(3) by (simp add: val_def)
  finally show ?thesis .
qed

lemma pv_sym: "pv p q = pv q p"
proof -
  have "- (real_of_int (share_x q) - real_of_int (share_x p))
      = real_of_int (share_x p) - real_of_int (share_x q)" by simp
  then show ?thesis
    unfolding pv_def
    by (metis (no_types, opaque_lifting) minus_diff_eq minus_divide_divide)
qed

lemma pv_good:
  assumes "on_line p" "on_line q" "share_x p \<noteq> share_x q"
  shows "pv p q = 3"
proof -
  from assms(1,2) have y: "real_of_int (share_y p) = 2 * real_of_int (share_x p) + 3"
    "real_of_int (share_y q) = 2 * real_of_int (share_x q) + 3"
    by (simp_all add: on_line_def)
  from assms(3) have "real_of_int (share_x q) - real_of_int (share_x p) \<noteq> 0" by simp
  then show ?thesis unfolding pv_def y by (simp add: field_simps)
qed

lemma pv_mixed:
  assumes "on_line g1" "on_line g2" "\<not> on_line b" "share_x b \<noteq> 0"
    "share_x g1 \<noteq> share_x g2" "share_x g1 \<noteq> share_x b" "share_x g2 \<noteq> share_x b"
  shows "pv g1 b \<noteq> pv g2 b"
proof
  assume eq: "pv g1 b = pv g2 b"
  define x1 x2 xb yb v where "x1 = real_of_int (share_x g1)" and "x2 = real_of_int (share_x g2)"
    and "xb = real_of_int (share_x b)" and "yb = real_of_int (share_y b)" and "v = pv g1 b"
  from assms(1,2) have y: "real_of_int (share_y g1) = 2 * x1 + 3"
    "real_of_int (share_y g2) = 2 * x2 + 3"
    by (simp_all add: on_line_def x1_def x2_def)
  from assms(5-7) have ne: "xb - x1 \<noteq> 0" "xb - x2 \<noteq> 0" "x1 - x2 \<noteq> 0"
    by (simp_all add: x1_def x2_def xb_def)
  from assms(4) have xb0: "xb \<noteq> 0" by (simp add: xb_def)
  have "v = (xb * (2 * x1 + 3) - x1 * yb) / (xb - x1)"
    by (simp add: v_def pv_def y x1_def xb_def yb_def)
  with ne(1) have e1: "v * (xb - x1) = xb * (2 * x1 + 3) - x1 * yb" by (simp add: field_simps)
  have "v = (xb * (2 * x2 + 3) - x2 * yb) / (xb - x2)"
    using eq by (simp add: v_def pv_def y x2_def xb_def yb_def)
  with ne(2) have e2: "v * (xb - x2) = xb * (2 * x2 + 3) - x2 * yb" by (simp add: field_simps)
  from e1 e2 have "(x1 - x2) * (2 * xb - yb + v) = 0" by (simp add: algebra_simps)
  with ne(3) have A: "2 * xb - yb + v = 0" by simp
  from e1 have "x1 * (2 * xb - yb + v) = xb * (v - 3)" by (simp add: algebra_simps)
  with A xb0 have "v = 3" by simp
  with A have "yb = 2 * xb + 3" by simp
  then have "real_of_int (share_y b) = real_of_int (2 * share_x b + 3)"
    by (simp add: xb_def yb_def)
  then have "share_y b = 2 * share_x b + 3" by (simp only: of_int_eq_iff)
  with assms(3) show False by (simp add: on_line_def)
qed

lemma key_good:
  assumes "on_line p" "on_line q" "share_x p \<noteq> share_x q"
  shows "pair_key p q = (3, 1)"
  using pv_good [OF assms] by (simp add: pair_key_3 [OF assms(3)])

lemma key_mixed:
  assumes "on_line g1" "on_line g2" "\<not> on_line b" "share_x b \<noteq> 0"
    "share_x g1 \<noteq> share_x g2" "share_x g1 \<noteq> share_x b" "share_x g2 \<noteq> share_x b"
  shows "pair_key g1 b \<noteq> pair_key g2 b" "pair_key b g1 \<noteq> pair_key b g2"
    "pair_key g1 b \<noteq> pair_key b g2" "pair_key b g1 \<noteq> pair_key g2 b"
proof -
  note m = pv_mixed [OF assms]
  from assms(6,7) have ne: "share_x b \<noteq> share_x g1" "share_x b \<noteq> share_x g2" by simp_all
  show "pair_key g1 b \<noteq> pair_key g2 b"
    using m by (simp add: pair_key_eq [OF assms(6) assms(7)])
  show "pair_key b g1 \<noteq> pair_key b g2"
    using m by (simp add: pair_key_eq [OF ne(1) ne(2)] pv_sym [of b])
  show "pair_key g1 b \<noteq> pair_key b g2"
    using m by (simp add: pair_key_eq [OF assms(6) ne(2)] pv_sym [of b])
  show "pair_key b g1 \<noteq> pair_key g2 b"
    using m by (simp add: pair_key_eq [OF ne(1) assms(7)] pv_sym [of b])
qed

lemma candidate_pair:
  assumes "a < length shares" "b < length shares" "share_x (shares ! a) \<noteq> share_x (shares ! b)"
  shows "candidate shares [Some a, Some b] =
           Inr (pair_key (shares ! a) (shares ! b), [shares ! a, shares ! b])"
proof -
  from pair_value [OF assms(3)] obtain r where
    "reconstructAtOrigin [shares ! a, shares ! b] = Inr r" by blast
  with assms(1,2) show ?thesis
    by (simp add: candidate_def subset_of_def js_get_def pair_key_def)
qed

lemma majority_wins:
  assumes "map (candidate shares) cs = map Inr es" "K \<in> fst ` set es"
    "\<forall>k'. k' \<noteq> K \<longrightarrow> count_list (map fst es) k' < count_list (map fst es) K"
  shows "\<exists>F T. tally_loop shares cs ([], []) = Inr (F, T) \<and> fst (top_loop F (None, - 1)) = Some K"
proof -
  obtain F T where ft: "foldl tally_step ([], []) es = (F, T)"
    by (cases "foldl tally_step ([], []) es")
  with tally_loop_ok [OF assms(1), of "([], [])"] have tl: "tally_loop shares cs ([], []) = Inr (F, T)"
    by simp
  from assms(1) have "length cs = length es" by (metis length_map)
  with assms(2) have ne: "cs \<noteq> []" by auto
  from leader_first_maximal [OF tl ne] obtain k where
    k: "fst (top_loop F (None, - 1)) = Some k" "\<forall>k'. votes shares cs k' \<le> votes shares cs k"
    by blast
  have "k = K"
  proof (rule ccontr)
    assume "k \<noteq> K"
    with assms(3) have "count_list (map fst es) k < count_list (map fst es) K" by blast
    moreover from k(2) have "votes shares cs K \<le> votes shares cs k" by blast
    ultimately show False by (simp add: votes_count [OF assms(1)])
  qed
  with k(1) tl show ?thesis by blast
qed

lemma combos_2_4:
  "combos 2 [0..<4] = [[0, 1], [0, 2], [0, 3], [1, 2], [1, 3], [2, 3]]"
  by code_simp

lemma recover_majority:
  assumes S: "sort_key share_x pushed = [s0, s1, s2, s3]"
    and K: "(3, 1) \<in> fst ` set es"
    and es: "es = [(pair_key s0 s1, [s0, s1]), (pair_key s0 s2, [s0, s2]), (pair_key s0 s3, [s0, s3]),
                   (pair_key s1 s2, [s1, s2]), (pair_key s1 s3, [s1, s3]), (pair_key s2 s3, [s2, s3])]"
    and d: "distinct (map share_x [s0, s1, s2, s3])"
    and maj: "\<forall>k'. k' \<noteq> (3, 1) \<longrightarrow> count_list (map fst es) k' < count_list (map fst es) (3, 1)"
  shows "\<exists>sub. recoverSecretFromJSON 2 pushed = Some (Inr (Secret 3 sub))"
proof -
  let ?S = "[s0, s1, s2, s3]"
  let ?cs = "map (map Some) [[0, 1], [0, 2], [0, 3], [1, 2], [1, 3], [2, 3 :: nat]]"
  have "length (sort_key share_x pushed) = 4" by (simp add: S)
  then have len: "length pushed = 4" by simp
  have c: "map (candidate ?S) ?cs = map Inr es"
    using d by (simp add: es candidate_pair)
  from majority_wins [OF c K maj] obtain F T where
    ft: "tally_loop ?S ?cs ([], []) = Inr (F, T)" "fst (top_loop F (None, - 1)) = Some (3, 1)"
    by blast
  have t: "toIntegerIfExact \<lparr>num = 3, den = 1\<rparr> = Inr (Some 3)"
    by (simp add: toIntegerIfExact_def)
  have "recoverSecretFromJSON 2 pushed = Some (Inr (Secret 3 (map_of T (3, 1))))"
    using recover_unfold [of 2 pushed] len ft
    by (simp add: S combos_2_4 Rational_int t del: tally_loop.simps)
  then show ?thesis by blast
qed

lemma length_4_conv: "length xs = 4 \<Longrightarrow> \<exists>a b c d. xs = [a, b, c, d]"
  by (auto simp: length_Suc_conv numeral_eq_Suc)

lemma count_case0:
  assumes "a \<noteq> b" "a \<noteq> c" "b \<noteq> c" "k' \<noteq> (K :: key)"
  shows "count_list [a, b, c, K, K, K] k' < count_list [a, b, c, K, K, K] K"
  using assms by auto

lemma count_case1:
  assumes "a \<noteq> b" "a \<noteq> c" "b \<noteq> c" "k' \<noteq> (K :: key)"
  shows "count_list [a, K, K, b, c, K] k' < count_list [a, K, K, b, c, K] K"
  using assms by auto

lemma count_case2:
  assumes "a \<noteq> b" "a \<noteq> c" "b \<noteq> c" "k' \<noteq> (K :: key)"
  shows "count_list [K, a, K, b, K, c] k' < count_list [K, a, K, b, K, c] K"
  using assms by auto

lemma count_case3:
  assumes "a \<noteq> b" "a \<noteq> c" "b \<noteq> c" "k' \<noteq> (K :: key)"
  shows "count_list [K, K, a, K, b, c] k' < count_list [K, K, a, K, b, c] K"
  using assms by auto

lemma three_on_line_shares:
  assumes len: "length pushed = 4"
    and dist: "distinct (map share_x pushed)"
    and three: "length (filter on_line pushed) = 3"
    and nz: "\<forall>p\<in>set pushed. \<not> on_line p \<longrightarrow> share_x p \<noteq> 0"
  shows "\<exists>sub. recoverSecretFromJSON 2 pushed = Some (Inr (Secret 3 sub))"
proof -
  let ?S = "sort_key share_x pushed"
  from len have "length ?S = 4" by simp
  from length_4_conv [OF this] obtain s0 s1 s2 s3 where S: "?S = [s0, s1, s2, s3]"
    by blast
  have "distinct ?S \<and> inj_on share_x (set ?S)"
    using dist by (simp add: distinct_map)
  then have d: "distinct (map share_x [s0, s1, s2, s3])"
    unfolding S by (simp only: distinct_map)
  then have x: "share_x s0 \<noteq> share_x s1" "share_x s0 \<noteq> share_x s2" "share_x s0 \<noteq> share_x s3"
    "share_x s1 \<noteq> share_x s2" "share_x s1 \<noteq> share_x s3" "share_x s2 \<noteq> share_x s3"
    by auto
  have "length (filter on_line ?S) = 3"
    using three by (simp add: filter_sort)
  then have f: "length (filter on_line [s0, s1, s2, s3]) = 3" by (simp only: S)
  have "set ?S = set pushed" by simp
  then have "set pushed = {s0, s1, s2, s3}" by (simp add: S)
  with nz have z: "\<not> on_line s0 \<longrightarrow> share_x s0 \<noteq> 0" "\<not> on_line s1 \<longrightarrow> share_x s1 \<noteq> 0"
    "\<not> on_line s2 \<longrightarrow> share_x s2 \<noteq> 0" "\<not> on_line s3 \<longrightarrow> share_x s3 \<noteq> 0" by simp_all
  define es where "es = [(pair_key s0 s1, [s0, s1]), (pair_key s0 s2, [s0, s2]), (pair_key s0 s3, [s0, s3]),
                   (pair_key s1 s2, [s1, s2]), (pair_key s1 s3, [s1, s3]), (pair_key s2 s3, [s2, s3])]"
  from f consider
      (b0) "\<not> on_line s0" "on_line s1" "on_line s2" "on_line s3"
    | (b1) "on_line s0" "\<not> on_line s1" "on_line s2" "on_line s3"
    | (b2) "on_line s0" "on_line s1" "\<not> on_line s2" "on_line s3"
    | (b3) "on_line s0" "on_line s1" "on_line s2" "\<not> on_line s3"
    by (auto split: if_splits)
  then have "(3, 1) \<in> fst ` set es
      \<and> (\<forall>k'. k' \<noteq> (3, 1) \<longrightarrow> count_list (map fst es) k' < count_list (map fst es) (3, 1))"
  proof cases
    case b0
    from b0 z have z0: "share_x s0 \<noteq> 0" by simp
    have g: "pair_key s1 s2 = (3, 1)" "pair_key s1 s3 = (3, 1)" "pair_key s2 s3 = (3, 1)"
      using b0 x by (simp_all add: key_good)
    have m: "pair_key s0 s1 \<noteq> pair_key s0 s2" "pair_key s0 s1 \<noteq> pair_key s0 s3"
      "pair_key s0 s2 \<noteq> pair_key s0 s3"
      using key_mixed(2) [OF b0(2) b0(3) b0(1) z0] key_mixed(2) [OF b0(2) b0(4) b0(1) z0]
        key_mixed(2) [OF b0(3) b0(4) b0(1) z0] x by auto
    show ?thesis
      unfolding es_def using count_case0 [OF m] by (simp add: g)
  next
    case b1
    from b1 z have z0: "share_x s1 \<noteq> 0" by simp
    have g: "pair_key s0 s2 = (3, 1)" "pair_key s0 s3 = (3, 1)" "pair_key s2 s3 = (3, 1)"
      using b1 x by (simp_all add: key_good)
    have m: "pair_key s0 s1 \<noteq> pair_key s1 s2" "pair_key s0 s1 \<noteq> pair_key s1 s3"
      "pair_key s1 s2 \<noteq> pair_key s1 s3"
      using key_mixed(3) [OF b1(1) b1(3) b1(2) z0] key_mixed(3) [OF b1(1) b1(4) b1(2) z0]
        key_mixed(2) [OF b1(3) b1(4) b1(2) z0] x by auto
    show ?thesis
      unfolding es_def using count_case1 [OF m] by (simp add: g)
  next
    case b2
    from b2 z have z0: "share_x s2 \<noteq> 0" by simp
    have g: "pair_key s0 s1 = (3, 1)" "pair_key s0 s3 = (3, 1)" "pair_key s1 s3 = (3, 1)"
      using b2 x by (simp_all add: key_good)
    have m: "pair_key s0 s2 \<noteq> pair_key s1 s2" "pair_key s0 s2 \<noteq> pair_key s2 s3"
      "pair_key s1 s2 \<noteq> pair_key s2 s3"
      using key_mixed(1) [OF b2(1) b2(2) b2(3) z0] key_mixed(3) [OF b2(1) b2(4) b2(3) z0]
        key_mixed(3) [OF b2(2) b2(4) b2(3) z0] x by auto
    show ?thesis
      unfolding es_def using count_case2 [OF m] by (simp add: g)
  next
    case b3
    from b3 z have z0: "share_x s3 \<noteq> 0" by simp
    have g: "pair_key s0 s1 = (3, 1)" "pair_key s0 s2 = (3, 1)" "pair_key s1 s2 = (3, 1)"
      using b3 x by (simp_all add: key_good)
    have m: "pair_key s0 s3 \<noteq> pair_key s1 s3" "pair_key s0 s3 \<noteq> pair_key s2 s3"
      "pair_key s1 s3 \<noteq> pair_key s2 s3"
      using key_mixed(1) [OF b3(1) b3(2) b3(4) z0] key_mixed(1) [OF b3(1) b3(3) b3(4) z0]
        key_mixed(1) [OF b3(2) b3(3) b3(4) z0] x by auto
    show ?thesis
      unfolding es_def using count_case3 [OF m] by (simp add: g)
  qed
  then show ?thesis
    using recover_majority [OF S _ es_def d] by blast
qed

section \<open>The shares of a test case\<close>

lemma bit_length_le: "n < 2 ^ k \<Longrightarrow> bit_length n \<le> k"
proof (induction k arbitrary: n)
  case 0
  then show ?case by (simp add: bit_length.simps)
next
  case (Suc k)
  show ?case
  proof (cases "n \<le> 0")
    case True
    then show ?thesis by (simp add: bit_length.simps)
  next
    case False
    from Suc.prems have "n div 2 < 2 ^ k" by simp
    then have "bit_length (n div 2) \<le> k" by (rule Suc.IH)
    with False show ?thesis by (subst bit_length.simps) simp
  qed
qed

lemma Number_exact: "n < 2 ^ 53 \<Longrightarrow> Number_of_digits n = Some n"
  using bit_length_le [of n 53] by (simp add: Number_of_digits_def)

lemma push_loop_exact:
  "\<forall>e\<in>set es. entry_key e < 2 ^ 53
     \<Longrightarrow> push_loop es shares = Inr (shares @ map share_of_entry es)"
  by (induction es arbitrary: shares)
    (simp_all add: Number_exact BigInt_of_Number_def share_of_entry_def)

text \<open>
  C1, as the code has it: four entries whose keys are pairwise distinct and below
  \<open>2 ^ 53\<close>, so that each x-coordinate is its key, three of them on the line
  \<open>y = 2x + 3\<close> and the fourth off the line at a key other than 0, give the integer
  secret 3 for \<open>k = 2\<close>.
\<close>

theorem consensus_three_on_line:
  assumes "length entries = 4"
    and "distinct (map entry_key entries)"
    and "length (filter entry_on_line entries) = 3"
    and "\<forall>e\<in>set entries. \<not> entry_on_line e \<longrightarrow> entry_key e \<noteq> 0"
    and "\<forall>e\<in>set entries. 0 \<le> entry_key e \<and> entry_key e < 2 ^ 53"
  shows "\<exists>sub. recoverSecretFromJSON_testcase 2 entries = Some (Inr (Secret 3 sub))"
proof -
  let ?pushed = "map share_of_entry entries"
  from assms(5) have p: "push_loop entries [] = Inr ?pushed"
    by (simp add: push_loop_exact)
  have x: "map share_x ?pushed = map entry_key entries"
    by (simp add: share_of_entry_def comp_def)
  have l: "on_line (share_of_entry e) = entry_on_line e" for e
    by (simp add: on_line_def entry_on_line_def share_of_entry_def)
  have 1: "length ?pushed = 4" using assms(1) by simp
  have 2: "distinct (map share_x ?pushed)" using assms(2) by (simp only: x)
  have 3: "length (filter on_line ?pushed) = 3"
    using assms(3) by (simp add: filter_map comp_def l)
  have 4: "\<forall>p\<in>set ?pushed. \<not> on_line p \<longrightarrow> share_x p \<noteq> 0"
    using assms(4) by (auto simp: l) (simp add: share_of_entry_def)
  from three_on_line_shares [OF 1 2 3 4] p show ?thesis
    by (simp add: recoverSecretFromJSON_testcase_def)
qed

theorem consensus_three_on_line_witness:
  "length [\<lparr>entry_key = 1, entry_y = 5\<rparr>, \<lparr>entry_key = 2, entry_y = 7\<rparr>,
           \<lparr>entry_key = 3, entry_y = 9\<rparr>, \<lparr>entry_key = 4, entry_y = 100\<rparr>] = 4
   \<and> distinct (map entry_key [\<lparr>entry_key = 1, entry_y = 5\<rparr>, \<lparr>entry_key = 2, entry_y = 7\<rparr>,
           \<lparr>entry_key = 3, entry_y = 9\<rparr>, \<lparr>entry_key = 4, entry_y = 100\<rparr>])
   \<and> length (filter entry_on_line [\<lparr>entry_key = 1, entry_y = 5\<rparr>, \<lparr>entry_key = 2, entry_y = 7\<rparr>,
           \<lparr>entry_key = 3, entry_y = 9\<rparr>, \<lparr>entry_key = 4, entry_y = 100\<rparr>]) = 3
   \<and> \<not> entry_on_line \<lparr>entry_key = 4, entry_y = 100\<rparr>
   \<and> entry_key \<lparr>entry_key = 4, entry_y = 100\<rparr> \<noteq> 0
   \<and> (4 :: int) < 2 ^ 53
   \<and> (\<exists>sub. recoverSecretFromJSON_testcase 2 [\<lparr>entry_key = 1, entry_y = 5\<rparr>, \<lparr>entry_key = 2, entry_y = 7\<rparr>,
           \<lparr>entry_key = 3, entry_y = 9\<rparr>, \<lparr>entry_key = 4, entry_y = 100\<rparr>] = Some (Inr (Secret 3 sub)))"
  using consensus_three_on_line [of "[\<lparr>entry_key = 1, entry_y = 5\<rparr>, \<lparr>entry_key = 2, entry_y = 7\<rparr>,
           \<lparr>entry_key = 3, entry_y = 9\<rparr>, \<lparr>entry_key = 4, entry_y = 100\<rparr>]"]
  by (simp add: entry_on_line_def)

theorem consensus_three_on_line_counterexample:
  "length (filter entry_on_line [\<lparr>entry_key = 1, entry_y = 5\<rparr>, \<lparr>entry_key = 2, entry_y = 7\<rparr>,
           \<lparr>entry_key = 3, entry_y = 9\<rparr>, \<lparr>entry_key = 0, entry_y = 7\<rparr>]) = 3
   \<and> recoverSecretFromJSON_testcase 2 [\<lparr>entry_key = 1, entry_y = 5\<rparr>, \<lparr>entry_key = 2, entry_y = 7\<rparr>,
           \<lparr>entry_key = 3, entry_y = 9\<rparr>, \<lparr>entry_key = 0, entry_y = 7\<rparr>]
       = Some (Inr (Secret 7 (Some [\<lparr>share_x = 0, share_y = 7\<rparr>, \<lparr>share_x = 1, share_y = 5\<rparr>])))
   \<and> length (filter entry_on_line [\<lparr>entry_key = 1, entry_y = 5\<rparr>, \<lparr>entry_key = 2, entry_y = 7\<rparr>,
           \<lparr>entry_key = 3, entry_y = 9\<rparr>, \<lparr>entry_key = 1, entry_y = 7\<rparr>]) = 3
   \<and> recoverSecretFromJSON_testcase 2 [\<lparr>entry_key = 1, entry_y = 5\<rparr>, \<lparr>entry_key = 2, entry_y = 7\<rparr>,
           \<lparr>entry_key = 3, entry_y = 9\<rparr>, \<lparr>entry_key = 1, entry_y = 7\<rparr>]
       = Some (Inl Divide_by_zero)
   \<and> length (filter entry_on_line [\<lparr>entry_key = 1, entry_y = 6\<rparr>, \<lparr>entry_key = 2, entry_y = 7\<rparr>,
           \<lparr>entry_key = 9007199254740993, entry_y = 18014398509481989\<rparr>,
           \<lparr>entry_key = 9007199254740995, entry_y = 18014398509481993\<rparr>]) = 3
   \<and> recoverSecretFromJSON_testcase 2 [\<lparr>entry_key = 1, entry_y = 6\<rparr>, \<lparr>entry_key = 2, entry_y = 7\<rparr>,
           \<lparr>entry_key = 9007199254740993, entry_y = 18014398509481989\<rparr>,
           \<lparr>entry_key = 9007199254740995, entry_y = 18014398509481993\<rparr>]
       = Some (Inr (Secret 5 (Some [\<lparr>share_x = 1, share_y = 6\<rparr>, \<lparr>share_x = 2, share_y = 7\<rparr>])))"
  by code_simp

section \<open>The errors that recoverSecretFromJSON can raise\<close>

lemma subset_of_defined:
  "set c \<subseteq> {..<length shares}
     \<Longrightarrow> defined_list (subset_of shares (map Some c)) = Some (map ((!) shares) c)"
  by (induction c) (simp_all add: subset_of_def js_get_def)

lemma candidate_valid:
  assumes "set c \<subseteq> {..<length shares}"
  shows "candidate shares (map Some c) = Inl Divide_by_zero
         \<or> (\<exists>r. normal_form r
               \<and> candidate shares (map Some c) = Inr ((num r, den r), map ((!) shares) c))"
  using reconstructAtOrigin_cases [of "map ((!) shares) c"]
  by (auto simp: candidate_def subset_of_defined [OF assms])

lemma combos_in_range: "c \<in> set (combos k [0..<n]) \<Longrightarrow> set c \<subseteq> {..<n}"
  using combos_subset [of c k "[0..<n]"] by (auto simp: atLeast0LessThan)

lemma Rational_normal_id:
  assumes "normal_form r"
  shows "Rational (num r) (den r) = Inr r"
proof -
  from assms have "den r \<noteq> 0" by (rule normal_form_den)
  from Rational_ok [OF this, of "num r"] obtain r' where
    r': "Rational (num r) (den r) = Inr r'" "normal_form r'"
      "val r' = real_of_int (num r) / real_of_int (den r)" by blast
  from r'(3) have "val r' = val r" by (simp add: val_def)
  with r'(2) assms have "r' = r" by (rule_tac normal_form_val_eq)
  with r'(1) show ?thesis by simp
qed

lemma tally_loop_Inl:
  "tally_loop shares cs st = Inl e \<Longrightarrow> \<exists>c\<in>set cs. candidate shares c = Inl e"
proof (induction cs arbitrary: st)
  case Nil
  then show ?case by (simp add: tally_loop_Nil)
next
  case (Cons c cs)
  then show ?case
    by (cases "candidate shares c") (auto simp: tally_loop_Cons)
qed

lemma entries_members:
  assumes "map (candidate shares) cs = map Inr es" "x \<in> set es"
  shows "\<exists>c\<in>set cs. candidate shares c = Inr x"
proof -
  from assms(2) have "Inr x \<in> set (map Inr es :: (error + key \<times> share list) list)" by simp
  with assms(1) have "Inr x \<in> set (map (candidate shares) cs)" by simp
  then show ?thesis by auto
qed

lemma recover_errors:
  assumes "recoverSecretFromJSON k pushed = Some (Inl e)"
  shows "e = Not_enough_shares_in_input \<or> e = Divide_by_zero"
proof (cases "int (length pushed) < k")
  case True
  with assms show ?thesis by (simp add: recoverSecretFromJSON_def)
next
  case False
  show ?thesis
  proof (cases "k < 0")
    case True
    with False assms show ?thesis by (simp add: recoverSecretFromJSON_def chooseCombos_negative)
  next
    case nn: False
    let ?S = "sort_key share_x pushed"
    let ?raw = "combos (nat k) [0..<length pushed]"
    let ?cs = "map (map Some) ?raw"
    from nn False have kn: "0 \<le> k" "k \<le> int (length pushed)" by simp_all
    then have ne: "?cs \<noteq> []" using combos_nonempty [of "nat k" "[0..<length pushed]"] by simp
    have valid: "candidate ?S c = Inl Divide_by_zero
         \<or> (\<exists>r sub. normal_form r \<and> candidate ?S c = Inr ((num r, den r), sub))"
      if "c \<in> set ?cs" for c
    proof -
      from that obtain c0 where c0: "c = map Some c0" "c0 \<in> set ?raw" by auto
      from combos_in_range [OF c0(2)] have "set c0 \<subseteq> {..<length ?S}" by simp
      from candidate_valid [OF this] c0(1) show ?thesis by auto
    qed
    show ?thesis
    proof (cases "tally_loop ?S ?cs ([], [])")
      case (Inl e')
      from assms Inl have ee: "e' = e" by (simp add: recover_unfold [OF kn])
      from tally_loop_Inl [OF Inl] obtain c where "c \<in> set ?cs" "candidate ?S c = Inl e'"
        by blast
      with valid [of c] ee show ?thesis by auto
    next
      case (Inr st)
      obtain F T where st: "st = (F, T)" by (cases st)
      from Inr st have tl: "tally_loop ?S ?cs ([], []) = Inr (F, T)" by simp
      from tally_loop_entries [OF tl] obtain es where
        es: "map (candidate ?S) ?cs = map Inr es" by blast
      from top_loop_char [OF top_loop_tally_Some [OF tl ne], of None] obtain F1 kw vw F2 where
        sp: "F = F1 @ (kw, vw) # F2" and top: "top_loop F (None, - 1) = (Some kw, vw)" by blast
      from sp have "(kw, vw) \<in> set F" by simp
      from tally_values [OF tl es this] obtain x where x: "x \<in> set es" "fst x = kw" by auto
      from entries_members [OF es x(1)] obtain c where
        c: "c \<in> set ?cs" "candidate ?S c = Inr x" by blast
      with valid [of c] x(2) obtain r where r: "normal_form r" "kw = (num r, den r)" by auto
      from r(1) have t: "toIntegerIfExact r = Inr (if den r = 1 then Some (num r) else None)"
        by (rule toIntegerIfExact_normal)
      have "\<exists>v. recoverSecretFromJSON k pushed = Some (Inr v)"
        using tl top r(2) by (simp add: recover_unfold [OF kn] Rational_normal_id [OF r(1)] t)
      with assms show ?thesis by auto
    qed
  qed
qed

end
